theory Spec2Isabelle
  imports Main "HOL-Library.Sublist"
begin

chapter \<open>Model\<close>

section \<open>JavaScript strings\<close>

text \<open>
  The program is TypeScript: a string is a sequence of UTF-16 code units, and
  \<open>length\<close>, \<open>slice\<close>, \<open>substring\<close> and indexing all count code units. A code unit
  is modelled as a natural number and a string as a list of them; \<open>lit\<close> turns an
  ASCII literal of the source into that representation.
\<close>

type_synonym jchar = nat
type_synonym jstring = "jchar list"

definition lit :: "string \<Rightarrow> jstring" where
  "lit s = map of_char s"

text \<open>
  The regular-expression class \<open>\s\<close> and the characters removed by
  \<open>String.prototype.trim\<close> are the same set: ECMAScript WhiteSpace and
  LineTerminator.
\<close>

definition is_space :: "jchar \<Rightarrow> bool" where
  "is_space c \<longleftrightarrow>
     c = 9 \<or> c = 10 \<or> c = 11 \<or> c = 12 \<or> c = 13 \<or> c = 32 \<or> c = 160 \<or> c = 5760 \<or>
     (8192 \<le> c \<and> c \<le> 8202) \<or> c = 8232 \<or> c = 8233 \<or> c = 8239 \<or> c = 8287 \<or>
     c = 12288 \<or> c = 65279"

text \<open>The class \<open>\w\<close> (no unicode flag): ASCII letters, digits and underscore.\<close>

definition is_word :: "jchar \<Rightarrow> bool" where
  "is_word c \<longleftrightarrow>
     (48 \<le> c \<and> c \<le> 57) \<or> (65 \<le> c \<and> c \<le> 90) \<or> c = 95 \<or> (97 \<le> c \<and> c \<le> 122)"

definition trimStart :: "jstring \<Rightarrow> jstring" where
  "trimStart s = dropWhile is_space s"

definition trimEnd :: "jstring \<Rightarrow> jstring" where
  "trimEnd s = rev (dropWhile is_space (rev s))"

definition trim :: "jstring \<Rightarrow> jstring" where
  "trim s = trimEnd (trimStart s)"

text \<open>\<open>s.replace(/\s+/g, " ")\<close>: every maximal run of whitespace becomes one space.\<close>

function collapse_ws :: "jstring \<Rightarrow> jstring" where
  "collapse_ws [] = []"
| "collapse_ws (c # cs) =
     (if is_space c then 32 # collapse_ws (dropWhile is_space cs)
      else c # collapse_ws cs)"
  by pat_completeness auto
termination
  by (relation "measure length") (auto simp: less_Suc_eq_le length_dropWhile_le)

section \<open>Memory entries (src/core/system.ts, compactMemoryEntry)\<close>

definition MAX_MEMORY_ENTRY_LENGTH :: nat where
  "MAX_MEMORY_ENTRY_LENGTH = 500"

definition truncated_prefix :: jstring where
  "truncated_prefix = lit ''[truncated] ''"

text \<open>The ellipsis character U+2026, a single code unit.\<close>

definition ellipsis :: jchar where
  "ellipsis = 8230"

definition compactMemoryEntry :: "jstring \<Rightarrow> jstring" where
  "compactMemoryEntry content =
     (let trimmed = trim content in
      if trimmed = [] then []
      else if length trimmed \<le> MAX_MEMORY_ENTRY_LENGTH then trimmed
      else
        let singleLine = trim (collapse_ws trimmed) in
        if length singleLine \<le> MAX_MEMORY_ENTRY_LENGTH then singleLine
        else
          let remaining = int MAX_MEMORY_ENTRY_LENGTH - int (length truncated_prefix) - 1 in
          truncated_prefix @ trimEnd (take (nat (max 0 remaining)) singleLine) @ [ellipsis])"


section \<open>Regular-expression scans\<close>

text \<open>
  \<open>split_first_any pats s\<close> finds the leftmost position of \<open>s\<close> at which one of the
  literal patterns \<open>pats\<close> starts and returns the text before it and the text after the
  matched pattern; \<open>None\<close> when no pattern occurs. With one pattern this is
  \<open>indexOf\<close>.
\<close>

fun split_first_any :: "jstring list \<Rightarrow> jstring \<Rightarrow> (jstring \<times> jstring) option" where
  "split_first_any pats [] = (if [] \<in> set pats then Some ([], []) else None)"
| "split_first_any pats (c # cs) =
     (case find (\<lambda>p. prefix p (c # cs)) pats of
        Some p \<Rightarrow> Some ([], drop (length p) (c # cs))
      | None \<Rightarrow> map_option (\<lambda>(b, a). (c # b, a)) (split_first_any pats cs))"

lemma split_first_any_length:
  "split_first_any pats s = Some (b, a) \<Longrightarrow> length b + length a \<le> length s"
proof (induction s arbitrary: b a)
  case Nil
  then show ?case by (simp split: if_splits)
next
  case (Cons c cs)
  then show ?case by (fastforce split: option.splits)
qed

lemma split_first_any_shorter:
  "split_first_any pats s = Some (b, a) \<Longrightarrow> [] \<notin> set pats \<Longrightarrow> length b + length a < length s"
proof (induction s arbitrary: b a)
  case Nil
  then show ?case by (simp split: if_splits)
next
  case (Cons c cs)
  show ?case
  proof (cases "find (\<lambda>p. prefix p (c # cs)) pats")
    case None
    then show ?thesis using Cons by fastforce
  next
    case (Some p)
    then have "p \<in> set pats" by (auto simp: find_Some_iff)
    then have "p \<noteq> []" using Cons.prems(2) by auto
    then show ?thesis using Cons.prems(1) Some by auto
  qed
qed

text \<open>
  A global scan with a regular expression of the shape \<open>OPEN([\s\S]*?)CLOSE\<close>, where
  \<open>OPEN\<close> is a literal and \<open>CLOSE\<close> an alternative of literals: the bodies of the
  successive non-overlapping matches, and the text that \<open>replace\<close> leaves when every
  match is replaced by the empty string. The source only uses non-empty literals.
\<close>

function scan_blocks :: "jstring \<Rightarrow> jstring list \<Rightarrow> jstring \<Rightarrow> jstring list \<times> jstring" where
  "scan_blocks opn cls s =
     (if opn = [] then ([], s)
      else case split_first_any [opn] s of
        None \<Rightarrow> ([], s)
      | Some (pre, r) \<Rightarrow>
          (case split_first_any cls r of
             None \<Rightarrow> ([], s)
           | Some (body, r') \<Rightarrow>
               (let (bs, rest) = scan_blocks opn cls r' in (body # bs, pre @ rest))))"
  by pat_completeness auto
termination
proof (relation "measure (\<lambda>(opn, cls, s). length s)", goal_cases)
  case 1
  then show ?case by simp
next
  case (2 opn cls s x2 pre r x2a body r')
  then have "length pre + length r < length s"
    using split_first_any_shorter[of "[opn]" s pre r] by simp
  moreover have "length body + length r' \<le> length r"
    using 2 split_first_any_length[of cls r body r'] by simp
  ultimately show ?case by simp
qed

declare scan_blocks.simps [simp del]

definition match_bodies :: "jstring \<Rightarrow> jstring list \<Rightarrow> jstring \<Rightarrow> jstring list" where
  "match_bodies opn cls s = fst (scan_blocks opn cls s)"

definition endsWith :: "jstring \<Rightarrow> jstring \<Rightarrow> bool" where
  "endsWith s t = suffix t s"

definition startsWith :: "jstring \<Rightarrow> jstring \<Rightarrow> bool" where
  "startsWith s t = prefix t s"

text \<open>\<open>s.lastIndexOf(c)\<close> for a single character: the last index, or -1.\<close>

fun lastIndexOf :: "jstring \<Rightarrow> jchar \<Rightarrow> int" where
  "lastIndexOf [] c = -1"
| "lastIndexOf (x # xs) c =
     (let r = lastIndexOf xs c in
      if r \<ge> 0 then r + 1 else if x = c then 0 else -1)"

text \<open>\<open>s.substring(a, b)\<close> for \<open>0 \<le> a \<le> b\<close>.\<close>

definition substring :: "jstring \<Rightarrow> nat \<Rightarrow> nat \<Rightarrow> jstring" where
  "substring s a b = take (b - a) (drop a s)"

section \<open>The streaming tag filter (src/core/ui.ts)\<close>

definition OPENING_TAGS :: "jstring list" where
  "OPENING_TAGS =
     [lit ''<tools>'', lit ''<remember>'', lit ''<forget>'', lit ''<|tool_calls_section_begin|>'']"

definition CLOSING_FOR :: "jstring \<Rightarrow> jstring list" where
  "CLOSING_FOR t =
     (if t = lit ''<tools>'' then [lit ''</tools>'']
      else if t = lit ''<remember>'' then [lit ''</remember>'']
      else if t = lit ''<forget>'' then [lit ''</forget>'']
      else [lit ''<|tool_calls_section_end|>''])"

definition TOOL_CONTAINERS :: "jstring set" where
  "TOOL_CONTAINERS = {lit ''<tools>'', lit ''<|tool_calls_section_begin|>''}"

datatype filter_mode = normal | buffering | suppressing

record ToolParsedInfo =
  info_name :: jstring
  info_preview :: jstring

text \<open>
  The object state of a \<open>StreamFilter\<close>. The two callbacks are modelled by what they
  receive: \<open>emitted\<close> lists the arguments of the successive \<open>emit\<close> calls and
  \<open>parsed\<close> those of the \<open>onToolParsed\<close> calls; \<open>hasOnToolParsed\<close> says whether the
  optional callback was given to the constructor.
\<close>

record StreamFilter =
  state :: filter_mode
  buffer :: jstring
  closingTags :: "jstring list"
  currentOpeningTag :: jstring
  nestingDepth :: nat
  isToolContainer :: bool
  processedToolCount :: nat
  hasOnToolParsed :: bool
  emitted :: "jstring list"
  parsed :: "ToolParsedInfo list"

definition new_StreamFilter :: "bool \<Rightarrow> StreamFilter" where
  "new_StreamFilter cb =
     \<lparr>state = normal, buffer = [], closingTags = [], currentOpeningTag = [],
      nestingDepth = 0, isToolContainer = False, processedToolCount = 0,
      hasOnToolParsed = cb, emitted = [], parsed = []\<rparr>"

definition emit :: "jstring \<Rightarrow> StreamFilter \<Rightarrow> StreamFilter" where
  "emit text f = f\<lparr>emitted := emitted f @ [text]\<rparr>"

text \<open>
  The body of the loop of \<open>emitNewTools\<close> for one match: the name and preview
  handed to \<open>onToolParsed\<close>, or \<open>None\<close> when the body does not start with
  \<open>Name(\<close>.
\<close>

definition tool_info :: "jstring \<Rightarrow> ToolParsedInfo option" where
  "tool_info grp =
     (let body = trim grp;
          nm = takeWhile is_word body
      in if nm \<noteq> [] \<and> prefix [40] (drop (length nm) body) then
           let argsStart = length nm + 1;
               argsEnd = lastIndexOf body 41;
               rawArgs = (if argsEnd > int argsStart then substring body argsStart (nat argsEnd)
                          else []);
               pv = take 60 rawArgs @ (if length rawArgs > 60 then lit ''...'' else [])
           in Some \<lparr>info_name = nm, info_preview = pv\<rparr>
         else None)"

definition emitNewTools :: "StreamFilter \<Rightarrow> StreamFilter" where
  "emitNewTools f =
     (let groups = match_bodies (lit ''<tool>'') [lit ''</tool>''] (buffer f);
          fresh = drop (processedToolCount f) groups
      in f\<lparr>parsed := parsed f @ List.map_filter tool_info fresh,
            processedToolCount := length groups\<rparr>)"

text \<open>
  The three cases of the \<open>switch\<close> in \<open>write\<close>, each after its first statement
  \<open>this.buffer += ch\<close>. The \<open>suppressing\<close> case is three statements in sequence:
  the nesting check, the early tool detection and the closing check.
\<close>

definition buffering_check :: "StreamFilter \<Rightarrow> StreamFilter" where
  "buffering_check f =
     (case find (\<lambda>t. t = buffer f) OPENING_TAGS of
        Some exactMatch \<Rightarrow>
          f\<lparr>closingTags := CLOSING_FOR exactMatch,
            currentOpeningTag := exactMatch,
            nestingDepth := 0,
            isToolContainer := (exactMatch \<in> TOOL_CONTAINERS),
            processedToolCount := 0,
            buffer := [],
            state := suppressing\<rparr>
      | None \<Rightarrow>
          if list_ex (\<lambda>t. startsWith t (buffer f)) OPENING_TAGS then f
          else (emit (buffer f) f)\<lparr>buffer := [], state := normal\<rparr>)"

definition track_nesting :: "StreamFilter \<Rightarrow> StreamFilter" where
  "track_nesting f =
     (if currentOpeningTag f \<noteq> [] \<and> endsWith (buffer f) (currentOpeningTag f)
      then f\<lparr>nestingDepth := nestingDepth f + 1\<rparr> else f)"

definition detect_tools :: "StreamFilter \<Rightarrow> StreamFilter" where
  "detect_tools f =
     (if isToolContainer f \<and> hasOnToolParsed f \<and> endsWith (buffer f) (lit ''</tool>'')
      then emitNewTools f else f)"

definition check_closed :: "StreamFilter \<Rightarrow> StreamFilter" where
  "check_closed f =
     (if list_ex (\<lambda>ct. endsWith (buffer f) ct) (closingTags f) then
        if nestingDepth f > 0 then f\<lparr>nestingDepth := nestingDepth f - 1\<rparr>
        else
          (if isToolContainer f \<and> hasOnToolParsed f then emitNewTools f else f)
            \<lparr>buffer := [], closingTags := [], currentOpeningTag := [],
             nestingDepth := 0, isToolContainer := False,
             processedToolCount := 0, state := normal\<rparr>
      else f)"

definition write_char :: "jchar \<Rightarrow> StreamFilter \<Rightarrow> StreamFilter" where
  "write_char ch f =
     (case state f of
        normal \<Rightarrow>
          if ch = 60 then f\<lparr>buffer := [60], state := buffering\<rparr>
          else emit [ch] f
      | buffering \<Rightarrow> buffering_check (f\<lparr>buffer := buffer f @ [ch]\<rparr>)
      | suppressing \<Rightarrow>
          check_closed (detect_tools (track_nesting (f\<lparr>buffer := buffer f @ [ch]\<rparr>))))"

text \<open>\<open>StreamFilter.write\<close> (the name \<open>write\<close> is reserved in Isabelle).\<close>

definition write_chunk :: "jstring \<Rightarrow> StreamFilter \<Rightarrow> StreamFilter" where
  "write_chunk chunk f = fold write_char chunk f"

definition flush :: "StreamFilter \<Rightarrow> StreamFilter" where
  "flush f =
     (if buffer f \<noteq> [] \<and> state f = buffering then emit (buffer f) f else f)
       \<lparr>buffer := [], closingTags := [], currentOpeningTag := [], nestingDepth := 0,
        isToolContainer := False, processedToolCount := 0, state := normal\<rparr>"

text \<open>
  A whole stream: a fresh filter, one \<open>write\<close> per chunk, then \<open>flush\<close>. What a
  caller observes is the concatenation of the emitted text and the sequence of
  \<open>onToolParsed\<close> events.
\<close>

definition run_filter :: "bool \<Rightarrow> jstring list \<Rightarrow> StreamFilter" where
  "run_filter cb chunks = flush (fold write_chunk chunks (new_StreamFilter cb))"

definition emitted_text :: "StreamFilter \<Rightarrow> jstring" where
  "emitted_text f = concat (emitted f)"


section \<open>The response parser (src/tools/parser.ts)\<close>

record ToolCall =
  name :: jstring
  rawArgs :: "jstring list"

record ParsedResponse =
  toolCalls :: "ToolCall list"
  remembers :: "jstring list"
  forgets :: "jstring list"
  cleanText :: jstring

definition is_quote :: "jchar \<Rightarrow> bool" where
  "is_quote c \<longleftrightarrow> c = 34 \<or> c = 39 \<or> c = 96"

text \<open>The \<open>switch\<close> on the character after a backslash.\<close>

definition unescape :: "jchar \<Rightarrow> jchar" where
  "unescape c = (if c = 110 then 10 else if c = 116 then 9 else c)"

text \<open>
  The inner loop of \<open>parseArguments\<close> over a quoted value, started after the opening
  quote \<open>q\<close>: the value read, and the text after the closing quote (empty when the quote
  is never closed).
\<close>

fun read_quoted :: "jchar \<Rightarrow> jstring \<Rightarrow> jstring \<times> jstring" where
  "read_quoted q [] = ([], [])"
| "read_quoted q [c] = (if c = q then ([], []) else ([c], []))"
| "read_quoted q (c # d # ds) =
     (if c = q then ([], d # ds)
      else if c = 92 then (case read_quoted q ds of (v, r) \<Rightarrow> (unescape d # v, r))
      else (case read_quoted q (d # ds) of (v, r) \<Rightarrow> (c # v, r)))"

text \<open>
  The optional keyword prefix \<open>/^(\w+)\s*[=:]\s*/\<close>: the text after it when it matches,
  the text unchanged otherwise.
\<close>

definition strip_kwarg :: "jstring \<Rightarrow> jstring" where
  "strip_kwarg s =
     (let w = takeWhile is_word s;
          r = dropWhile is_space (dropWhile is_word s)
      in case r of
           [] \<Rightarrow> s
         | c # r' \<Rightarrow> if w \<noteq> [] \<and> (c = 61 \<or> c = 58) then dropWhile is_space r' else s)"

lemma read_quoted_length: "length (snd (read_quoted q s)) \<le> length s"
  by (induction q s rule: read_quoted.induct) (auto split: prod.splits)

lemma strip_kwarg_length: "length (strip_kwarg s) \<le> length s"
proof -
  have "length (dropWhile is_space (dropWhile is_word s)) \<le> length s"
    using length_dropWhile_le[of is_space "dropWhile is_word s"] length_dropWhile_le[of is_word s]
    by linarith
  moreover have "length (dropWhile is_space r') \<le> length r'" for r'
    by (rule length_dropWhile_le)
  ultimately show ?thesis
    unfolding strip_kwarg_def Let_def
    by (auto split: list.splits intro: order.trans[OF length_dropWhile_le] simp: le_SucI Suc_le_eq)
qed

function parseArguments :: "jstring \<Rightarrow> jstring list" where
  "parseArguments argsStr =
     (case dropWhile is_space argsStr of
        [] \<Rightarrow> []
      | c0 # s0 \<Rightarrow>
          (case dropWhile is_space (strip_kwarg (c0 # s0)) of
             [] \<Rightarrow> []
           | q # rest \<Rightarrow>
               if is_quote q then
                 (case read_quoted q rest of
                    (v, r) \<Rightarrow> v # parseArguments (dropWhile (\<lambda>c. is_space c \<or> c = 44) r))
               else
                 trim (takeWhile (\<lambda>c. c \<noteq> 44) (q # rest))
                   # parseArguments (drop 1 (dropWhile (\<lambda>c. c \<noteq> 44) (q # rest)))))"
  by pat_completeness auto
termination
proof (relation "measure length", goal_cases)
  case 1
  then show ?case by simp
next
  case (2 argsStr c0 s0 q rest v r)
  have a: "length (c0 # s0) \<le> length argsStr"
    using 2(1) length_dropWhile_le[of is_space argsStr] by simp
  have b: "length (q # rest) \<le> length (c0 # s0)"
    using 2(2) length_dropWhile_le[of is_space "strip_kwarg (c0 # s0)"]
      strip_kwarg_length[of "c0 # s0"] by simp
  have c: "length r \<le> length rest"
    using 2(4) read_quoted_length[of q rest] by (metis snd_conv)
  have "length (dropWhile (\<lambda>c. is_space c \<or> c = 44) r) \<le> length r"
    by (rule length_dropWhile_le)
  then show ?case using a b c by simp
next
  case (3 argsStr c0 s0 q rest)
  have a: "length (c0 # s0) \<le> length argsStr"
    using 3(1) length_dropWhile_le[of is_space argsStr] by simp
  have b: "length (q # rest) \<le> length (c0 # s0)"
    using 3(2) length_dropWhile_le[of is_space "strip_kwarg (c0 # s0)"]
      strip_kwarg_length[of "c0 # s0"] by simp
  have "length (drop 1 (dropWhile (\<lambda>c. c \<noteq> 44) (q # rest))) < length (q # rest)"
    using length_dropWhile_le[of "\<lambda>c. c \<noteq> 44" rest] by (cases "q = 44") auto
  then show ?case using a b by simp
qed

declare parseArguments.simps [simp del]

text \<open>\<open>text.match(/^(\w+)\(([\s\S]*)\)$/)\<close>, then the arguments.\<close>

definition parseToolCall :: "jstring \<Rightarrow> ToolCall option" where
  "parseToolCall text =
     (let nm = takeWhile is_word text;
          rest = dropWhile is_word text
      in if nm \<noteq> [] \<and> length rest \<ge> 2 \<and> hd rest = 40 \<and> last rest = 41 then
           let argsStr = trim (butlast (tl rest))
           in Some \<lparr>name = nm,
                    rawArgs = (if argsStr = [] then [] else parseArguments argsStr)\<rparr>
         else None)"

text \<open>
  \<open>parseInnerBlocks\<close> pushes onto three arrays; the model returns what it pushes onto
  each, in order. A \<open><tool>\<close> body for which \<open>parseToolCall\<close> returns null pushes nothing.
\<close>

definition inner_toolCalls :: "jstring \<Rightarrow> ToolCall list" where
  "inner_toolCalls content =
     List.map_filter (\<lambda>b. parseToolCall (trim b))
       (match_bodies (lit ''<tool>'') [lit ''</tool>''] content)"

definition inner_remembers :: "jstring \<Rightarrow> jstring list" where
  "inner_remembers content =
     map trim (match_bodies (lit ''<remember>'') [lit ''</remember>''] content)"

definition inner_forgets :: "jstring \<Rightarrow> jstring list" where
  "inner_forgets content =
     map trim (match_bodies (lit ''<forget>'') [lit ''</forget>''] content)"

text \<open>
  The second dialect carries JSON. \<open>JSON.parse\<close>, the conversion \<open>String(value)\<close> and
  the text of a number are the JavaScript runtime's, not the repository's: they are
  parameters of the model. A parsed object lists its members in the runtime's property
  order, so that \<open>Object.values\<close> is the list of the second components. Both calls can
  throw: \<open>JSON.parse\<close> a \<open>SyntaxError\<close> on a text that is not JSON, \<open>String(value)\<close> a
  \<open>TypeError\<close> on an object that cannot be converted (a member \<open>{"toString":null}\<close>);
  \<open>None\<close> stands for the exception. \<open>Number_text i\<close> is the text of the double nearest
  to the integer \<open>i\<close>.
\<close>

typedecl js_number

datatype json =
  JNull | JBool bool | JNumber js_number | JString jstring
| JArray "json list" | JObject "(jstring \<times> json) list"

datatype js_error = SyntaxError | TypeError

record js_runtime =
  JSON_parse :: "jstring \<Rightarrow> json option"
  String_of :: "json \<Rightarrow> jstring option"
  Number_text :: "int \<Rightarrow> jstring"

text \<open>
  The body of the \<open>try\<close> block of \<open>parseKimiToolCalls\<close>, on the array \<open>rawArgs\<close>: how it
  completes (\<open>Inl\<close> the exception thrown) and what \<open>rawArgs\<close> holds by then. The values of
  a parsed object or array, or any other parsed value, are pushed one by one, so that the
  strings pushed before a \<open>String(value)\<close> throws stay in the array.
\<close>

fun push_strings ::
  "js_runtime \<Rightarrow> json list \<Rightarrow> jstring list \<Rightarrow> (js_error + unit) \<times> jstring list" where
  "push_strings rt [] pushed = (Inr (), pushed)"
| "push_strings rt (v # vs) pushed =
     (case String_of rt v of
        None \<Rightarrow> (Inl TypeError, pushed)
      | Some s \<Rightarrow> push_strings rt vs (pushed @ [s]))"

definition try_block ::
  "js_runtime \<Rightarrow> jstring \<Rightarrow> jstring list \<Rightarrow> (js_error + unit) \<times> jstring list" where
  "try_block rt argsJson pushed =
     (case JSON_parse rt argsJson of
        None \<Rightarrow> (Inl SyntaxError, pushed)
      | Some (JObject members) \<Rightarrow> push_strings rt (map snd members) pushed
      | Some (JArray vs) \<Rightarrow> push_strings rt vs pushed
      | Some v \<Rightarrow> push_strings rt [v] pushed)"

text \<open>
  \<open>if (argsJson) try { ... } catch { rawArgs.push(argsJson) }\<close>: the array after the
  statement. The \<open>catch\<close> clause appends the whole text to what the block had pushed.
\<close>

definition kimi_rawArgs :: "js_runtime \<Rightarrow> jstring \<Rightarrow> jstring list" where
  "kimi_rawArgs rt argsJson =
     (if argsJson = [] then []
      else case try_block rt argsJson [] of
             (Inr u, pushed) \<Rightarrow> pushed
           | (Inl e, pushed) \<Rightarrow> pushed @ [argsJson])"

definition kimi_name :: "jstring \<Rightarrow> jstring" where
  "kimi_name header =
     (let w = takeWhile is_word (drop (length (lit ''functions.'')) header)
      in if startsWith header (lit ''functions.'') \<and> w \<noteq> [] then w else header)"

definition kimi_call :: "js_runtime \<Rightarrow> jstring \<Rightarrow> ToolCall option" where
  "kimi_call rt grp =
     (case split_first_any [lit ''<|tool_call_argument_begin|>''] (trim grp) of
        None \<Rightarrow> None
      | Some (header, args) \<Rightarrow>
          Some \<lparr>name = kimi_name (trim header), rawArgs = kimi_rawArgs rt (trim args)\<rparr>)"

definition parseKimiToolCalls :: "js_runtime \<Rightarrow> jstring \<Rightarrow> ToolCall list" where
  "parseKimiToolCalls rt content =
     List.map_filter (kimi_call rt)
       (match_bodies (lit ''<|tool_call_begin|>'') [lit ''<|tool_call_end|>''] content)"

text \<open>
  \<open>parseResponse\<close>: five \<open>replace\<close> passes, each over what the pass before left.
  The first accepts \<open></tools>\<close> and \<open><tools>\<close> as the closing tag.
\<close>

definition parseResponse :: "js_runtime \<Rightarrow> jstring \<Rightarrow> ParsedResponse" where
  "parseResponse rt text =
     (case scan_blocks (lit ''<tools>'') [lit ''</tools>'', lit ''<tools>''] text of
        (blocks, rem1) \<Rightarrow>
     (case scan_blocks (lit ''<|tool_calls_section_begin|>'')
             [lit ''<|tool_calls_section_end|>''] rem1 of
        (sections, rem2) \<Rightarrow>
     (case scan_blocks (lit ''<remember>'') [lit ''</remember>''] rem2 of
        (rs, rem3) \<Rightarrow>
     (case scan_blocks (lit ''<forget>'') [lit ''</forget>''] rem3 of
        (fs, rem4) \<Rightarrow>
     (case scan_blocks (lit ''<tool>'') [lit ''</tool>''] rem4 of
        (bare, rem5) \<Rightarrow>
          \<lparr>toolCalls =
             concat (map inner_toolCalls blocks) @
             concat (map (parseKimiToolCalls rt) sections) @
             List.map_filter (\<lambda>b. parseToolCall (trim b)) bare,
           remembers = concat (map inner_remembers blocks) @ map trim rs,
           forgets = concat (map inner_forgets blocks) @ map trim fs,
           cleanText = trim rem5\<rparr>)))))"

section \<open>The response parser with its exceptions\<close>

text \<open>
  The definitions above give what each function of the parser returns. Those below give
  the same functions with their completion explicit: \<open>Inr v\<close> when the call returns
  \<open>v\<close>, \<open>Inl e\<close> when it throws \<open>e\<close>. The exceptions arise in the \<open>try\<close> block
  (\<open>try_block\<close>); an exception leaves every loop and function around it at once, unless a
  \<open>catch\<close> clause handles it.
\<close>

type_synonym 'a completion = "js_error + 'a"

text \<open>\<open>try { body } catch { handler }\<close> on a state.\<close>

definition try_catch ::
  "('s \<Rightarrow> unit completion \<times> 's) \<Rightarrow> ('s \<Rightarrow> unit completion \<times> 's) \<Rightarrow>
   's \<Rightarrow> unit completion \<times> 's" where
  "try_catch body handler s =
     (case body s of
        (Inl e, s') \<Rightarrow> handler s'
      | (Inr u, s') \<Rightarrow> (Inr u, s'))"

text \<open>The statement that fills \<open>rawArgs\<close>, and the array after it.\<close>

definition kimi_rawArgs_outcome :: "js_runtime \<Rightarrow> jstring \<Rightarrow> jstring list completion" where
  "kimi_rawArgs_outcome rt argsJson =
     (if argsJson = [] then Inr []
      else case try_catch (try_block rt argsJson)
                  (\<lambda>pushed. (Inr (), pushed @ [argsJson])) [] of
             (Inl e, pushed) \<Rightarrow> Inl e
           | (Inr u, pushed) \<Rightarrow> Inr pushed)"

text \<open>One iteration of the loop of \<open>parseKimiToolCalls\<close>: the call it pushes, if any.\<close>

definition kimi_call_outcome :: "js_runtime \<Rightarrow> jstring \<Rightarrow> ToolCall option completion" where
  "kimi_call_outcome rt grp =
     (case split_first_any [lit ''<|tool_call_argument_begin|>''] (trim grp) of
        None \<Rightarrow> Inr None
      | Some (header, args) \<Rightarrow>
          (case kimi_rawArgs_outcome rt (trim args) of
             Inl e \<Rightarrow> Inl e
           | Inr pushed \<Rightarrow> Inr (Some \<lparr>name = kimi_name (trim header), rawArgs = pushed\<rparr>)))"

text \<open>The loop over the matches, on the array \<open>toolCalls\<close>.\<close>

fun kimi_loop_outcome ::
  "js_runtime \<Rightarrow> jstring list \<Rightarrow> ToolCall list \<Rightarrow> ToolCall list completion" where
  "kimi_loop_outcome rt [] calls = Inr calls"
| "kimi_loop_outcome rt (grp # grps) calls =
     (case kimi_call_outcome rt grp of
        Inl e \<Rightarrow> Inl e
      | Inr None \<Rightarrow> kimi_loop_outcome rt grps calls
      | Inr (Some c) \<Rightarrow> kimi_loop_outcome rt grps (calls @ [c]))"

definition parseKimiToolCalls_outcome ::
  "js_runtime \<Rightarrow> jstring \<Rightarrow> ToolCall list \<Rightarrow> ToolCall list completion" where
  "parseKimiToolCalls_outcome rt content calls =
     kimi_loop_outcome rt
       (match_bodies (lit ''<|tool_call_begin|>'') [lit ''<|tool_call_end|>''] content) calls"

text \<open>
  The second \<open>replace\<close> pass of \<open>parseResponse\<close>: the callback runs
  \<open>parseKimiToolCalls\<close> on each section in turn.
\<close>

fun kimi_sections_outcome ::
  "js_runtime \<Rightarrow> jstring list \<Rightarrow> ToolCall list \<Rightarrow> ToolCall list completion" where
  "kimi_sections_outcome rt [] calls = Inr calls"
| "kimi_sections_outcome rt (content # sections) calls =
     (case parseKimiToolCalls_outcome rt content calls of
        Inl e \<Rightarrow> Inl e
      | Inr calls' \<Rightarrow> kimi_sections_outcome rt sections calls')"

definition parseResponse_outcome :: "js_runtime \<Rightarrow> jstring \<Rightarrow> ParsedResponse completion" where
  "parseResponse_outcome rt text =
     (case scan_blocks (lit ''<tools>'') [lit ''</tools>'', lit ''<tools>''] text of
        (blocks, rem1) \<Rightarrow>
     (case scan_blocks (lit ''<|tool_calls_section_begin|>'')
             [lit ''<|tool_calls_section_end|>''] rem1 of
        (sections, rem2) \<Rightarrow>
     (case kimi_sections_outcome rt sections (concat (map inner_toolCalls blocks)) of
        Inl e \<Rightarrow> Inl e
      | Inr calls2 \<Rightarrow>
     (case scan_blocks (lit ''<remember>'') [lit ''</remember>''] rem2 of
        (rs, rem3) \<Rightarrow>
     (case scan_blocks (lit ''<forget>'') [lit ''</forget>''] rem3 of
        (fs, rem4) \<Rightarrow>
     (case scan_blocks (lit ''<tool>'') [lit ''</tool>''] rem4 of
        (bare, rem5) \<Rightarrow>
          Inr \<lparr>toolCalls = calls2 @ List.map_filter (\<lambda>b. parseToolCall (trim b)) bare,
               remembers = concat (map inner_remembers blocks) @ map trim rs,
               forgets = concat (map inner_forgets blocks) @ map trim fs,
               cleanText = trim rem5\<rparr>))))))"

section \<open>Observations on the response parser\<close>

text \<open>
  The shape \<open>Name(args)\<close>, as the expression \<open>/^(\w+)\(([\s\S]*)\)$/\<close> reads: one or more
  word characters, an opening parenthesis, any text, a closing parenthesis at the end.
\<close>

definition call_shape :: "jstring \<Rightarrow> bool" where
  "call_shape s \<longleftrightarrow>
     (\<exists>nm args. s = nm @ [40] @ args @ [41] \<and> nm \<noteq> [] \<and> list_all is_word nm)"

text \<open>
  The bodies of the \<open><tool>\<close> elements that \<open>parseResponse\<close> examines in a text: those
  inside the \<open><tools>\<close> blocks, found by the first pass, and the bare ones, found by the
  last pass in what the four passes before it have left.
\<close>

definition block_tool_bodies :: "jstring \<Rightarrow> jstring list" where
  "block_tool_bodies text =
     concat (map (match_bodies (lit ''<tool>'') [lit ''</tool>''])
       (fst (scan_blocks (lit ''<tools>'') [lit ''</tools>'', lit ''<tools>''] text)))"

definition bare_tool_bodies :: "jstring \<Rightarrow> jstring list" where
  "bare_tool_bodies text =
     (let rem1 = snd (scan_blocks (lit ''<tools>'') [lit ''</tools>'', lit ''<tools>''] text);
          rem2 = snd (scan_blocks (lit ''<|tool_calls_section_begin|>'')
                        [lit ''<|tool_calls_section_end|>''] rem1);
          rem3 = snd (scan_blocks (lit ''<remember>'') [lit ''</remember>''] rem2);
          rem4 = snd (scan_blocks (lit ''<forget>'') [lit ''</forget>''] rem3)
      in match_bodies (lit ''<tool>'') [lit ''</tool>''] rem4)"

text \<open>The calls of the second dialect in a text.\<close>

definition kimi_toolCalls :: "js_runtime \<Rightarrow> jstring \<Rightarrow> ToolCall list" where
  "kimi_toolCalls rt text =
     (let rem1 = snd (scan_blocks (lit ''<tools>'') [lit ''</tools>'', lit ''<tools>''] text)
      in concat (map (parseKimiToolCalls rt)
           (fst (scan_blocks (lit ''<|tool_calls_section_begin|>'')
                   [lit ''<|tool_calls_section_end|>''] rem1))))"

text \<open>
  The calls that a list of element bodies gives: the parse of each body that, trimmed, has
  the shape \<open>Name(args)\<close>, in order.
\<close>

definition shaped_calls :: "jstring list \<Rightarrow> ToolCall list" where
  "shaped_calls bodies =
     map (\<lambda>b. the (parseToolCall (trim b))) (filter (\<lambda>b. call_shape (trim b)) bodies)"

section \<open>Subagent task commands (src/core/task-mode.ts)\<close>

record TaskRequest =
  task :: jstring
  model :: "jstring option"
  provider :: "jstring option"
  debug :: bool

text \<open>The local variables of \<open>parseTaskRequestTokens\<close>; \<open>None\<close> is \<open>undefined\<close>.\<close>

record task_vars =
  v_task :: "jstring option"
  v_model :: "jstring option"
  v_provider :: "jstring option"
  v_debug :: bool
  v_positional :: "jstring list"

text \<open>
  One iteration of the \<open>for\<close> loop of \<open>parseTaskRequestTokens\<close> at token \<open>t\<close>, with
  \<open>ts\<close> the tokens after it: the updated variables, and whether the iteration consumed
  the next token as the option's value (\<open>tokens[++i]\<close>).
\<close>

definition token_step :: "jstring \<Rightarrow> jstring list \<Rightarrow> task_vars \<Rightarrow> task_vars \<times> bool" where
  "token_step t ts a =
     (if t = lit ''--task'' \<and> ts \<noteq> [] then (a\<lparr>v_task := Some (hd ts)\<rparr>, True)
      else if startsWith t (lit ''--task='') then (a\<lparr>v_task := Some (drop 7 t)\<rparr>, False)
      else if t = lit ''--model'' \<and> ts \<noteq> [] then (a\<lparr>v_model := Some (hd ts)\<rparr>, True)
      else if startsWith t (lit ''--model='') then (a\<lparr>v_model := Some (drop 8 t)\<rparr>, False)
      else if t = lit ''--provider'' \<and> ts \<noteq> [] then (a\<lparr>v_provider := Some (hd ts)\<rparr>, True)
      else if startsWith t (lit ''--provider='') then
        (a\<lparr>v_provider := Some (drop 11 t)\<rparr>, False)
      else if t = lit ''--debug'' then (a\<lparr>v_debug := True\<rparr>, False)
      else if \<not> startsWith t (lit ''--'') then (a\<lparr>v_positional := v_positional a @ [t]\<rparr>, False)
      else (a, False))"

fun scan_tokens :: "jstring list \<Rightarrow> task_vars \<Rightarrow> task_vars" where
  "scan_tokens [] a = a"
| "scan_tokens (t # ts) a =
     (case token_step t ts a of
        (a', consumed) \<Rightarrow> scan_tokens (drop (if consumed then 1 else 0) ts) a')"

text \<open>JavaScript truthiness of an optional string: defined and not empty.\<close>

definition truthy :: "jstring option \<Rightarrow> bool" where
  "truthy v = (case v of None \<Rightarrow> False | Some s \<Rightarrow> s \<noteq> [])"

definition parseTaskRequestTokens :: "jstring list \<Rightarrow> TaskRequest option" where
  "parseTaskRequestTokens tokens =
     (let a = scan_tokens tokens
                \<lparr>v_task = None, v_model = None, v_provider = None, v_debug = False,
                 v_positional = []\<rparr>
      in if \<not> truthy (v_task a) then None
         else Some \<lparr>task = the (v_task a),
                    model = (if \<not> truthy (v_model a) \<and> v_positional a \<noteq> []
                             then Some (hd (v_positional a)) else v_model a),
                    provider = v_provider a,
                    debug = v_debug a\<rparr>)"

record split_vars =
  tokens :: "jstring list"
  current :: jstring
  quote :: "jchar option"
  escaped :: bool

definition split_step :: "jchar \<Rightarrow> split_vars \<Rightarrow> split_vars" where
  "split_step ch v =
     (if escaped v then v\<lparr>current := current v @ [ch], escaped := False\<rparr>
      else case quote v of
        Some q \<Rightarrow>
          if q \<noteq> 39 \<and> ch = 92 then v\<lparr>escaped := True\<rparr>
          else if ch = q then v\<lparr>quote := None\<rparr>
          else v\<lparr>current := current v @ [ch]\<rparr>
      | None \<Rightarrow>
          if ch = 92 then v\<lparr>escaped := True\<rparr>
          else if ch = 39 \<or> ch = 34 \<or> ch = 96 then v\<lparr>quote := Some ch\<rparr>
          else if is_space ch then
            (if current v \<noteq> [] then v\<lparr>tokens := tokens v @ [current v], current := []\<rparr>
             else v)
          else v\<lparr>current := current v @ [ch]\<rparr>)"

definition splitShellCommand :: "jstring \<Rightarrow> jstring list option" where
  "splitShellCommand command =
     (let v = fold split_step command
                \<lparr>tokens = [], current = [], quote = None, escaped = False\<rparr>
      in if escaped v \<or> quote v \<noteq> None then None
         else Some (if current v \<noteq> [] then tokens v @ [current v] else tokens v))"

text \<open>\<open>token.split("/").pop()\<close>: the text after the last slash.\<close>

definition last_segment :: "jstring \<Rightarrow> jstring" where
  "last_segment token = rev (takeWhile (\<lambda>c. c \<noteq> 47) (rev token))"

definition isGloopCommand :: "jstring \<Rightarrow> bool" where
  "isGloopCommand token \<longleftrightarrow> last_segment token = lit ''gloop''"

definition parseGloopTaskBashCommand :: "jstring \<Rightarrow> TaskRequest option" where
  "parseGloopTaskBashCommand command =
     (case splitShellCommand command of
        None \<Rightarrow> None
      | Some [] \<Rightarrow> None
      | Some (t # ts) \<Rightarrow> if \<not> isGloopCommand t then None else parseTaskRequestTokens ts)"

section \<open>Forms and the form constructor (src/core/core.ts)\<close>

record ToolResult =
  result_name :: jstring
  result_output :: jstring
  result_success :: bool

record SpawnResult =
  success :: bool
  summary :: jstring
  exitCode :: int
  stdout :: jstring
  stderr :: jstring

datatype Form =
  Think jstring
| Invoke "ToolCall list" "ToolResult list \<Rightarrow> Form"
| Confirm jstring "bool \<Rightarrow> Form"
| Ask jstring "jstring \<Rightarrow> Form"
| Remember jstring Form
| Forget jstring Form
| Emit jstring Form
| Refresh
| Reboot jstring
| Done jstring
| Seq "Form list"
| Nil
| Install jstring
| ListTools
| Spawn jstring "SpawnResult \<Rightarrow> Form"

text \<open>Template literals render the exit code, an integer, in decimal.\<close>

fun decimal :: "nat \<Rightarrow> jstring" where
  "decimal n = (if n < 10 then [48 + n] else decimal (n div 10) @ [48 + n mod 10])"

declare decimal.simps [simp del]

definition show_int :: "int \<Rightarrow> jstring" where
  "show_int i = (if i < 0 then 45 # decimal (nat (- i)) else decimal (nat i))"

fun join :: "jstring \<Rightarrow> jstring list \<Rightarrow> jstring" where
  "join sep [] = []"
| "join sep [x] = x"
| "join sep (x # y # ys) = x @ sep @ join sep (y # ys)"

definition formatResults :: "ToolResult list \<Rightarrow> jstring" where
  "formatResults results =
     join [10, 10]
       (map (\<lambda>r. lit ''<tool_result name=\"'' @ result_name r @ lit ''\" status=\"'' @
                   (if result_success r then lit ''success'' else lit ''error'') @
                   lit ''\">'' @ [10] @ result_output r @ [10] @ lit ''</tool_result>'')
          results)"

definition spawnToToolResult :: "SpawnResult \<Rightarrow> ToolResult" where
  "spawnToToolResult r =
     \<lparr>result_name = lit ''Bash'',
      result_output =
        (if success r then lit ''Subagent task completed.'' @ [10] @ summary r
         else lit ''Subagent task failed (exit code: '' @ show_int (exitCode r) @ lit '').'' @
              [10] @ summary r),
      result_success = success r\<rparr>"

definition chainSpawns :: "jstring list \<Rightarrow> Form \<Rightarrow> Form" where
  "chainSpawns tasks base =
     foldr (\<lambda>t acc. Spawn t (\<lambda>r. Emit (formatResults [spawnToToolResult r]) acc)) tasks base"

text \<open>\<open>rawArgs[0] ?? d\<close>.\<close>

definition first_arg_or :: "jstring \<Rightarrow> ToolCall \<Rightarrow> jstring" where
  "first_arg_or d c = (case rawArgs c of [] \<Rightarrow> d | a # _ \<Rightarrow> a)"

definition asSpawnTask :: "ToolCall \<Rightarrow> jstring option" where
  "asSpawnTask c =
     (if name c \<noteq> lit ''Bash'' then None
      else map_option task (parseGloopTaskBashCommand (first_arg_or [] c)))"

definition memoryForms :: "ParsedResponse \<Rightarrow> Form list" where
  "memoryForms p = map (\<lambda>r. Remember r Nil) (remembers p) @ map (\<lambda>f. Forget f Nil) (forgets p)"

definition withMemory :: "ParsedResponse \<Rightarrow> Form \<Rightarrow> Form" where
  "withMemory p form = (if memoryForms p \<noteq> [] then Seq (memoryForms p @ [form]) else form)"

definition regularCalls :: "ParsedResponse \<Rightarrow> ToolCall list" where
  "regularCalls p =
     filter (\<lambda>c. name c \<noteq> lit ''CompleteTask'' \<and> name c \<noteq> lit ''Reboot'') (toolCalls p)"

text \<open>
  The partition loop: a call is a spawn task when \<open>asSpawnTask\<close> gives a non-empty
  task, a plain call otherwise.
\<close>

definition is_spawn :: "ToolCall \<Rightarrow> bool" where
  "is_spawn c \<longleftrightarrow> truthy (asSpawnTask c)"

definition spawnTasks :: "ToolCall list \<Rightarrow> jstring list" where
  "spawnTasks calls = map (\<lambda>c. the (asSpawnTask c)) (filter is_spawn calls)"

definition plainCalls :: "ToolCall list \<Rightarrow> ToolCall list" where
  "plainCalls calls = filter (\<lambda>c. \<not> is_spawn c) calls"

text \<open>The body of \<open>parseToForm\<close> after the call of \<open>parseResponse\<close>.\<close>

definition form_of_parsed :: "ParsedResponse \<Rightarrow> Form" where
  "form_of_parsed p =
     (if toolCalls p = [] then withMemory p Nil
      else case find (\<lambda>c. name c = lit ''Reboot'') (toolCalls p) of
        Some rebootCall \<Rightarrow>
          (let reason = first_arg_or (lit ''Reboot requested'') rebootCall in
           withMemory p
             (if regularCalls p \<noteq> [] then Invoke (regularCalls p) (\<lambda>_. Reboot reason)
              else Reboot reason))
      | None \<Rightarrow>
          (case find (\<lambda>c. name c = lit ''CompleteTask'') (toolCalls p) of
             Some completeCall \<Rightarrow>
               (let summary = first_arg_or (lit ''Task complete'') completeCall in
                withMemory p
                  (if regularCalls p \<noteq> [] then Invoke (regularCalls p) (\<lambda>_. Done summary)
                   else Done summary))
           | None \<Rightarrow>
               if regularCalls p = [] then withMemory p Nil
               else if spawnTasks (regularCalls p) = [] then
                 withMemory p (Invoke (regularCalls p) (\<lambda>results. Think (formatResults results)))
               else if plainCalls (regularCalls p) \<noteq> [] then
                 withMemory p
                   (Invoke (plainCalls (regularCalls p))
                      (\<lambda>toolResults.
                         chainSpawns (spawnTasks (regularCalls p))
                           (Think (formatResults toolResults))))
               else withMemory p (chainSpawns (spawnTasks (regularCalls p)) (Think []))))"

definition parseToForm :: "js_runtime \<Rightarrow> jstring \<Rightarrow> Form" where
  "parseToForm rt text = form_of_parsed (parseResponse rt text)"

section \<open>The world and the effects (src/core/core.ts)\<close>

text \<open>
  What the interpreter does to the outside is a sequence of calls on the \<open>Effects\<close>
  interface, of tool executions and of operations on the conversation. The outside (the
  user, the tools, the model provider, the cancellation signal, the registry, which the
  \<open>Reload\<close> tool mutates) is an environment of an arbitrary type \<open>'e\<close>; every call is
  a transition of the environment that returns a value or throws. The calls made are
  recorded, oldest first, in a trace.
\<close>

datatype js_exn = AbortError | Error jstring

text \<open>Why an evaluation stopped without returning.\<close>

datatype stop = Throw js_exn | Exit | OutOfFuel

datatype Event =
  StreamChunk jstring
| StreamDone
| ToolStart jstring jstring
| ToolDone jstring bool jstring
| ConfirmCall jstring
| AskCall jstring
| RememberCall jstring
| ForgetCall jstring
| RefreshSystemCall
| RebootCall jstring
| ManageContextCall jstring
| CompleteCall jstring
| InstallToolCall jstring
| ListToolsCall
| SpawnCall jstring
| ToolExecute jstring

record ToolArgument =
  arg_name :: jstring
  arg_description :: jstring

text \<open>
  \<open>execute\<close> returns the output, or \<open>Inl msg\<close> when it throws, \<open>msg\<close> being the text
  the \<open>catch\<close> clause of \<open>evalInvoke\<close> builds from the thrown value (its message and
  stack excerpt). \<open>askPermission\<close> is optional.
\<close>

record 'e ToolDefinition =
  tool_name :: jstring
  description :: jstring
  arguments :: "ToolArgument list"
  execute :: "(jstring \<rightharpoonup> jstring) \<Rightarrow> 'e \<Rightarrow> (jstring + jstring) \<times> 'e"
  askPermission :: "((jstring \<rightharpoonup> jstring) \<Rightarrow> jstring option) option"

text \<open>
  The \<open>Effects\<close> interface. The callbacks that return nothing (\<open>streamChunk\<close>,
  \<open>streamDone\<close>, \<open>toolStart\<close>, \<open>toolDone\<close>, \<open>complete\<close>) act on the environment
  through \<open>notify\<close>. \<open>reboot\<close> never returns: it throws (\<open>Some\<close>) or the process
  exits (\<open>None\<close>).
\<close>

record 'e Effects =
  notify :: "Event \<Rightarrow> 'e \<Rightarrow> 'e"
  confirm :: "jstring \<Rightarrow> 'e \<Rightarrow> (js_exn + bool) \<times> 'e"
  ask :: "jstring \<Rightarrow> 'e \<Rightarrow> (js_exn + jstring) \<times> 'e"
  remember :: "jstring \<Rightarrow> 'e \<Rightarrow> (js_exn + unit) \<times> 'e"
  forget :: "jstring \<Rightarrow> 'e \<Rightarrow> (js_exn + unit) \<times> 'e"
  refreshSystem :: "'e \<Rightarrow> (js_exn + unit) \<times> 'e"
  reboot :: "jstring \<Rightarrow> 'e \<Rightarrow> js_exn option \<times> 'e"
  manageContext :: "jstring \<Rightarrow> 'e \<Rightarrow> (js_exn + jstring) \<times> 'e"
  installTool :: "jstring \<Rightarrow> 'e \<Rightarrow> (js_exn + jstring) \<times> 'e"
  listTools :: "'e \<Rightarrow> jstring"
  spawn :: "jstring \<Rightarrow> 'e \<Rightarrow> (js_exn + SpawnResult) \<times> 'e"

text \<open>One \<open>next()\<close> of the response stream, raced against the cancellation signal.\<close>

datatype stream_item = Chunk jstring | StreamEnd | StreamThrows js_exn

text \<open>
  The collaborators reached through the \<open>World\<close>: the cancellation signal, the registry
  and the conversation. \<open>requiresConfirmation\<close> is the function of
  \<open>src/tools/validator.ts\<close> and \<open>runtime\<close> the JSON functions of the JavaScript
  runtime, both taken as parameters.
\<close>

record 'e Host =
  signal_aborted :: "'e \<Rightarrow> bool"
  registry_get :: "'e \<Rightarrow> jstring \<Rightarrow> 'e ToolDefinition option"
  convo_stream :: "jstring \<Rightarrow> 'e \<Rightarrow> 'e"
  stream_next :: "'e \<Rightarrow> stream_item \<times> 'e"
  stream_return :: "'e \<Rightarrow> 'e"
  push_assistant :: "jstring \<Rightarrow> 'e \<Rightarrow> 'e"
  requiresConfirmation :: "ToolCall \<Rightarrow> jstring option"
  runtime :: js_runtime

record 'e World =
  env :: 'e
  world_toolCalls :: nat
  trace :: "Event list"

definition mkWorld :: "'e \<Rightarrow> 'e World" where
  "mkWorld e = \<lparr>env = e, world_toolCalls = 0, trace = []\<rparr>"

type_synonym ('e, 'a) step = "'e World \<Rightarrow> (stop + 'a) \<times> 'e World"

definition andThen :: "('e, 'a) step \<Rightarrow> ('a \<Rightarrow> ('e, 'b) step) \<Rightarrow> ('e, 'b) step" where
  "andThen m f w = (case m w of (Inl s, w') \<Rightarrow> (Inl s, w') | (Inr a, w') \<Rightarrow> f a w')"

definition ret :: "'a \<Rightarrow> ('e, 'a) step" where
  "ret a w = (Inr a, w)"

definition throw :: "js_exn \<Rightarrow> ('e, 'a) step" where
  "throw ex w = (Inl (Throw ex), w)"

text \<open>A call of a callback that returns nothing.\<close>

definition signal :: "'e Effects \<Rightarrow> Event \<Rightarrow> ('e, unit) step" where
  "signal fx ev w = (Inr (), w\<lparr>env := notify fx ev (env w), trace := trace w @ [ev]\<rparr>)"

text \<open>An awaited call: recorded, then run on the environment.\<close>

definition await :: "Event \<Rightarrow> ('e \<Rightarrow> (js_exn + 'a) \<times> 'e) \<Rightarrow> ('e, 'a) step" where
  "await ev call w =
     (case call (env w) of
        (r, e') \<Rightarrow>
          ((case r of Inl ex \<Rightarrow> Inl (Throw ex) | Inr a \<Rightarrow> Inr a),
           w\<lparr>env := e', trace := trace w @ [ev]\<rparr>))"

text \<open>\<open>if (world.signal?.aborted) throw new AbortError()\<close>.\<close>

definition check_abort :: "'e Host \<Rightarrow> ('e, unit) step" where
  "check_abort host w = (if signal_aborted host (env w) then throw AbortError w else ret () w)"

section \<open>The Invoke step (src/core/core.ts, evalInvoke)\<close>

text \<open>
  The argument object built from the tool's argument names and the positional
  \<open>rawArgs\<close>: excess arguments are ignored, missing names are absent keys.
\<close>

definition build_args :: "'e ToolDefinition \<Rightarrow> ToolCall \<Rightarrow> (jstring \<rightharpoonup> jstring)" where
  "build_args tool call = [map arg_name (arguments tool) [\<mapsto>] rawArgs call]"

definition preview_of :: "ToolCall \<Rightarrow> jstring" where
  "preview_of call =
     join (lit '', '')
       (map (\<lambda>a. [34] @ take 40 a @ (if length a > 40 then lit ''...'' else []) @ [34])
          (rawArgs call))"

definition denied_result :: "ToolCall \<Rightarrow> ToolResult" where
  "denied_result call =
     \<lparr>result_name = name call, result_output = lit ''User denied execution'',
      result_success = False\<rparr>"

definition unknown_result :: "ToolCall \<Rightarrow> ToolResult" where
  "unknown_result call =
     \<lparr>result_name = name call, result_output = lit ''Unknown tool: '' @ name call,
      result_success = False\<rparr>"

text \<open>From \<open>toolStart\<close> to the end of the \<open>try\<close>/\<open>catch\<close> around \<open>tool.execute\<close>.\<close>

definition run_tool :: "'e Effects \<Rightarrow> 'e ToolDefinition \<Rightarrow> ToolCall \<Rightarrow> ('e, ToolResult) step" where
  "run_tool fx tool call =
     andThen (signal fx (ToolStart (name call) (preview_of call))) (\<lambda>_ w.
       case execute tool (build_args tool call) (env w) of
         (r, e') \<Rightarrow>
           (case r of
              Inr out \<Rightarrow>
                andThen (signal fx (ToolDone (name call) True (lit ''ok''))) (\<lambda>_.
                  ret \<lparr>result_name = name call, result_output = out, result_success = True\<rparr>)
            | Inl msg \<Rightarrow>
                andThen (signal fx (ToolDone (name call) False msg)) (\<lambda>_.
                  ret \<lparr>result_name = name call, result_output = msg, result_success = False\<rparr>))
             (w\<lparr>env := e', trace := trace w @ [ToolExecute (name call)]\<rparr>))"

text \<open>The two checks that compute the danger description of a resolved call.\<close>

definition danger_of :: "'e Host \<Rightarrow> 'e ToolDefinition \<Rightarrow> ToolCall \<Rightarrow> jstring option" where
  "danger_of host tool call =
     (case requiresConfirmation host call of
        Some d \<Rightarrow> Some d
      | None \<Rightarrow>
          (case askPermission tool of
             Some f \<Rightarrow> f (build_args tool call)
           | None \<Rightarrow> None))"

text \<open>One iteration of the loop over the calls: the result it pushes.\<close>

definition invoke_call :: "'e Effects \<Rightarrow> 'e Host \<Rightarrow> ToolCall \<Rightarrow> ('e, ToolResult) step" where
  "invoke_call fx host call =
     andThen (check_abort host) (\<lambda>_.
       if name call = lit ''AskUser'' then
         (let question = first_arg_or (lit ''What would you like to do?'') call in
          andThen (signal fx (ToolStart (lit ''AskUser'') (take 60 question))) (\<lambda>_.
          andThen (await (AskCall question) (ask fx question)) (\<lambda>answer.
          andThen (signal fx (ToolDone (lit ''AskUser'') True (lit ''answered''))) (\<lambda>_.
            ret \<lparr>result_name = lit ''AskUser'',
                 result_output = lit ''User answered: '' @ answer,
                 result_success = True\<rparr>))))
       else if name call = lit ''ManageContext'' then
         (let instructions = first_arg_or (lit ''Prune stale messages'') call in
          andThen (signal fx (ToolStart (lit ''ManageContext'') (take 60 instructions))) (\<lambda>_.
          andThen (await (ManageContextCall instructions) (manageContext fx instructions))
            (\<lambda>result.
          andThen (signal fx (ToolDone (lit ''ManageContext'') True result)) (\<lambda>_.
            ret \<lparr>result_name = lit ''ManageContext'', result_output = result,
                 result_success = True\<rparr>))))
       else (\<lambda>w.
         case registry_get host (env w) (name call) of
           None \<Rightarrow>
             andThen
               (signal fx (ToolDone (name call) False (lit ''Unknown tool: '' @ name call)))
               (\<lambda>_. ret (unknown_result call)) w
         | Some tool \<Rightarrow>
             (case danger_of host tool call of
                None \<Rightarrow> run_tool fx tool call w
              | Some danger \<Rightarrow>
                  andThen (await (ConfirmCall danger) (confirm fx danger)) (\<lambda>ok.
                    if \<not> ok then
                      andThen (signal fx (ToolDone (name call) False (lit ''denied by user'')))
                        (\<lambda>_. ret (denied_result call))
                    else run_tool fx tool call) w)))"

text \<open>The loop over the calls of the batch, pushing each result.\<close>

fun invoke_calls ::
  "'e Effects \<Rightarrow> 'e Host \<Rightarrow> ToolCall list \<Rightarrow> ToolResult list \<Rightarrow> ('e, ToolResult list) step"
where
  "invoke_calls fx host [] results = ret results"
| "invoke_calls fx host (call # calls) results =
     andThen (invoke_call fx host call) (\<lambda>r. invoke_calls fx host calls (results @ [r]))"

definition CONTEXT_PRUNE_INTERVAL :: nat where
  "CONTEXT_PRUNE_INTERVAL = 50"

definition prune_instructions :: jstring where
  "prune_instructions =
     lit ''Prune old tool results and intermediate outputs. Keep the current task goal, recent results, and any information the agent is actively using.''"

text \<open>The counter update and the automatic pruning after the batch.\<close>

definition auto_prune :: "'e Effects \<Rightarrow> nat \<Rightarrow> ('e, unit) step" where
  "auto_prune fx n w =
     (if world_toolCalls w + n \<ge> CONTEXT_PRUNE_INTERVAL then
        andThen
          (signal fx (ToolStart (lit ''ManageContext'') (lit ''auto-pruning after 50 tool calls'')))
          (\<lambda>_.
        andThen (await (ManageContextCall prune_instructions) (manageContext fx prune_instructions))
          (\<lambda>pruneResult. signal fx (ToolDone (lit ''ManageContext'') True pruneResult)))
          (w\<lparr>world_toolCalls := 0\<rparr>)
      else ret () (w\<lparr>world_toolCalls := world_toolCalls w + n\<rparr>))"

text \<open>
  Everything \<open>evalInvoke\<close> does before it calls the continuation: the loop, the refresh
  after a \<open>Reload\<close>, the counter.
\<close>

definition invoke_batch :: "'e Effects \<Rightarrow> 'e Host \<Rightarrow> ToolCall list \<Rightarrow> ('e, ToolResult list) step" where
  "invoke_batch fx host calls =
     andThen (invoke_calls fx host calls []) (\<lambda>results.
     andThen (if list_ex (\<lambda>c. name c = lit ''Reload'') calls
              then await RefreshSystemCall (refreshSystem fx) else ret ()) (\<lambda>_.
     andThen (auto_prune fx (length calls)) (\<lambda>_. ret results)))"

definition evalInvoke ::
  "(Form \<Rightarrow> ('e, unit) step) \<Rightarrow> 'e Effects \<Rightarrow> 'e Host \<Rightarrow> ToolCall list \<Rightarrow>
   (ToolResult list \<Rightarrow> Form) \<Rightarrow> ('e, unit) step" where
  "evalInvoke ev fx host calls k =
     andThen (invoke_batch fx host calls) (\<lambda>results. ev (k results))"

section \<open>The Think step and the interpreter (src/core/core.ts)\<close>

definition str_includes :: "jstring \<Rightarrow> jstring \<Rightarrow> bool" where
  "str_includes s t \<longleftrightarrow> split_first_any [t] s \<noteq> None"

definition hasCompleteToolBlock :: "jstring \<Rightarrow> bool" where
  "hasCompleteToolBlock text \<longleftrightarrow>
     (str_includes text (lit ''<tools>'') \<and> str_includes text (lit ''</tools>'')) \<or>
     (str_includes text (lit ''<|tool_calls_section_begin|>'') \<and>
      str_includes text (lit ''<|tool_calls_section_end|>''))"

text \<open>Several calls of a callback in a row.\<close>

fun signals :: "'e Effects \<Rightarrow> Event list \<Rightarrow> 'e World \<Rightarrow> 'e World" where
  "signals fx [] w = w"
| "signals fx (ev # evs) w = signals fx evs (snd (signal fx ev w))"

text \<open>
  The filter of \<open>evalThink\<close> is built with \<open>emit = fx.streamChunk\<close> and without
  \<open>onToolParsed\<close>: every text the filter emits during an operation is a
  \<open>streamChunk\<close> call.
\<close>

definition through_filter ::
  "'e Effects \<Rightarrow> (StreamFilter \<Rightarrow> StreamFilter) \<Rightarrow> StreamFilter \<Rightarrow> 'e World \<Rightarrow>
   StreamFilter \<times> 'e World" where
  "through_filter fx op f w =
     (let f' = op f
      in (f', signals fx (map StreamChunk (drop (length (emitted f)) (emitted f'))) w))"

text \<open>
  The text to record in the history when the stream is abandoned: the iterator is
  closed without waiting, and a non-empty partial response is pushed as an assistant
  message.
\<close>

definition abandon_stream :: "'e Host \<Rightarrow> jstring \<Rightarrow> 'e World \<Rightarrow> 'e World" where
  "abandon_stream host fullText w =
     (let e1 = stream_return host (env w)
      in w\<lparr>env := (if fullText \<noteq> [] then push_assistant host fullText e1 else e1)\<rparr>)"

text \<open>
  The \<open>while (true)\<close> loop over the stream, with its \<open>catch\<close>: it returns
  \<open>brokeEarly\<close>, the filter and the accumulated text. The stream may never end, so the
  loop runs on fuel.
\<close>

fun think_loop ::
  "nat \<Rightarrow> 'e Effects \<Rightarrow> 'e Host \<Rightarrow> StreamFilter \<Rightarrow> jstring \<Rightarrow>
   ('e, bool \<times> StreamFilter \<times> jstring) step" where
  "think_loop 0 fx host f fullText w = (Inl OutOfFuel, w)"
| "think_loop (Suc n) fx host f fullText w =
     (case stream_next host (env w) of
        (item, e') \<Rightarrow>
          (case item of
             StreamEnd \<Rightarrow> (Inr (False, f, fullText), w\<lparr>env := e'\<rparr>)
           | StreamThrows ex \<Rightarrow>
               (Inl (Throw ex),
                if ex = AbortError then abandon_stream host fullText (w\<lparr>env := e'\<rparr>)
                else w\<lparr>env := e'\<rparr>)
           | Chunk content \<Rightarrow>
               (case (if content \<noteq> [] then through_filter fx (write_chunk content) f (w\<lparr>env := e'\<rparr>)
                      else (f, w\<lparr>env := e'\<rparr>)) of
                  (f', w') \<Rightarrow>
                    if hasCompleteToolBlock (fullText @ content)
                    then (Inr (True, f', fullText @ content), w')
                    else think_loop n fx host f' (fullText @ content) w')))"

definition evalThink ::
  "(Form \<Rightarrow> ('e, unit) step) \<Rightarrow> nat \<Rightarrow> 'e Effects \<Rightarrow> 'e Host \<Rightarrow> jstring \<Rightarrow> ('e, unit) step"
where
  "evalThink ev n fx host input w =
     andThen (think_loop n fx host (new_StreamFilter False) []) (\<lambda>(brokeEarly, f, fullText) w1.
       case through_filter fx flush f
              (if brokeEarly then abandon_stream host fullText w1 else w1) of
         (_, w2) \<Rightarrow>
           andThen (signal fx StreamDone) (\<lambda>_. ev (parseToForm (runtime host) fullText)) w2)
       (w\<lparr>env := convo_stream host input (env w)\<rparr>)"

text \<open>\<open>for (const f of form.forms) await eval_(f, world, fx)\<close>.\<close>

fun seq_loop :: "(Form \<Rightarrow> ('e, unit) step) \<Rightarrow> Form list \<Rightarrow> ('e, unit) step" where
  "seq_loop ev [] = ret ()"
| "seq_loop ev (f # fs) = andThen (ev f) (\<lambda>_. seq_loop ev fs)"

text \<open>
  The interpreter. A run need not end (the model can ask for tools forever), so the
  recursion runs on fuel: one unit per call of \<open>eval_\<close> (here \<open>evalForm\<close>), and the stream loop of a
  \<open>Think\<close> gets what is left.
\<close>

primrec evalForm :: "nat \<Rightarrow> 'e Effects \<Rightarrow> 'e Host \<Rightarrow> Form \<Rightarrow> ('e, unit) step" where
  "evalForm 0 fx host form = (\<lambda>w. (Inl OutOfFuel, w))"
| "evalForm (Suc n) fx host form =
     andThen (check_abort host) (\<lambda>_.
       case form of
         Nil \<Rightarrow> ret ()
       | Done s \<Rightarrow> signal fx (CompleteCall s)
       | Emit t k \<Rightarrow>
           andThen (signal fx (StreamChunk t)) (\<lambda>_.
           andThen (signal fx StreamDone) (\<lambda>_. evalForm n fx host k))
       | Remember c k \<Rightarrow>
           andThen (await (RememberCall c) (remember fx c)) (\<lambda>_. evalForm n fx host k)
       | Forget c k \<Rightarrow>
           andThen (await (ForgetCall c) (forget fx c)) (\<lambda>_. evalForm n fx host k)
       | Confirm c k \<Rightarrow>
           andThen (await (ConfirmCall c) (confirm fx c)) (\<lambda>ok. evalForm n fx host (k ok))
       | Ask q k \<Rightarrow>
           andThen (await (AskCall q) (ask fx q)) (\<lambda>answer. evalForm n fx host (k answer))
       | Refresh \<Rightarrow> await RefreshSystemCall (refreshSystem fx)
       | Reboot r \<Rightarrow>
           (\<lambda>w. case reboot fx r (env w) of
                   (ex, e') \<Rightarrow>
                     (Inl (case ex of Some x \<Rightarrow> Throw x | None \<Rightarrow> Exit),
                      w\<lparr>env := e', trace := trace w @ [RebootCall r]\<rparr>))
       | Seq fs \<Rightarrow> seq_loop (evalForm n fx host) fs
       | Think i \<Rightarrow> evalThink (evalForm n fx host) n fx host i
       | Invoke cs k \<Rightarrow> evalInvoke (evalForm n fx host) fx host cs k
       | Install src \<Rightarrow>
           andThen (await (InstallToolCall src) (installTool fx src)) (\<lambda>result.
           andThen (signal fx (StreamChunk result)) (\<lambda>_. signal fx StreamDone))
       | ListTools \<Rightarrow>
           (\<lambda>w. andThen (signal fx (StreamChunk (listTools fx (env w))))
                   (\<lambda>_. signal fx StreamDone) (w\<lparr>trace := trace w @ [ListToolsCall]\<rparr>))
       | Spawn t k \<Rightarrow>
           andThen (await (SpawnCall t) (spawn fx t)) (\<lambda>r. evalForm n fx host (k r)))"

text \<open>\<open>parseInput\<close> and \<open>run\<close>.\<close>

definition parseInput :: "jstring \<Rightarrow> Form" where
  "parseInput input =
     (let t = trim input in
      if \<not> startsWith t [47] then Think t
      else
        let cmd = takeWhile (\<lambda>c. c \<noteq> 32) t;
            arg = trim (drop 1 (dropWhile (\<lambda>c. c \<noteq> 32) t))
        in if cmd = lit ''/install'' then
             (if arg \<noteq> [] then Install arg else Emit (lit ''Usage: /install <url|path>'') Nil)
           else if cmd = lit ''/tools'' then ListTools
           else Emit (lit ''Unknown command: '' @ cmd) Nil)"

definition run :: "nat \<Rightarrow> 'e Effects \<Rightarrow> 'e Host \<Rightarrow> jstring \<Rightarrow> ('e, unit) step" where
  "run n fx host input = evalForm n fx host (parseInput input)"

section \<open>Observations on forms\<close>

text \<open>
  The terminal form of a response, behind the regular calls of the same response when
  there are any.
\<close>

definition wrap_terminal :: "ToolCall list \<Rightarrow> Form \<Rightarrow> Form" where
  "wrap_terminal regular terminal = (if regular \<noteq> [] then Invoke regular (\<lambda>_. terminal) else terminal)"

definition first_named :: "jstring \<Rightarrow> ToolCall list \<Rightarrow> ToolCall option" where
  "first_named n calls = find (\<lambda>c. name c = n) calls"

text \<open>
  A form hides its successors in continuations. \<open>spawn_chain rs sr f\<close> lists the tasks
  of the \<open>Spawn\<close> forms that \<open>f\<close> runs through and \<open>invoked_calls rs sr f\<close> the calls
  of its \<open>Invoke\<close> forms, when every \<open>Invoke\<close> continuation receives the results
  \<open>rs\<close> and every \<open>Spawn\<close> continuation the result \<open>sr\<close>.
\<close>

primrec spawn_chain :: "ToolResult list \<Rightarrow> SpawnResult \<Rightarrow> Form \<Rightarrow> jstring list" where
  "spawn_chain rs sr (Think i) = []"
| "spawn_chain rs sr (Invoke cs k) = spawn_chain rs sr (k rs)"
| "spawn_chain rs sr (Confirm c k) = []"
| "spawn_chain rs sr (Ask q k) = []"
| "spawn_chain rs sr (Remember c k) = spawn_chain rs sr k"
| "spawn_chain rs sr (Forget c k) = spawn_chain rs sr k"
| "spawn_chain rs sr (Emit t k) = spawn_chain rs sr k"
| "spawn_chain rs sr Refresh = []"
| "spawn_chain rs sr (Reboot r) = []"
| "spawn_chain rs sr (Done s) = []"
| "spawn_chain rs sr (Seq fs) = concat (map (spawn_chain rs sr) fs)"
| "spawn_chain rs sr Nil = []"
| "spawn_chain rs sr (Install s) = []"
| "spawn_chain rs sr ListTools = []"
| "spawn_chain rs sr (Spawn t k) = t # spawn_chain rs sr (k sr)"

primrec invoked_calls :: "ToolResult list \<Rightarrow> SpawnResult \<Rightarrow> Form \<Rightarrow> ToolCall list" where
  "invoked_calls rs sr (Think i) = []"
| "invoked_calls rs sr (Invoke cs k) = cs @ invoked_calls rs sr (k rs)"
| "invoked_calls rs sr (Confirm c k) = []"
| "invoked_calls rs sr (Ask q k) = []"
| "invoked_calls rs sr (Remember c k) = invoked_calls rs sr k"
| "invoked_calls rs sr (Forget c k) = invoked_calls rs sr k"
| "invoked_calls rs sr (Emit t k) = invoked_calls rs sr k"
| "invoked_calls rs sr Refresh = []"
| "invoked_calls rs sr (Reboot r) = []"
| "invoked_calls rs sr (Done s) = []"
| "invoked_calls rs sr (Seq fs) = concat (map (invoked_calls rs sr) fs)"
| "invoked_calls rs sr Nil = []"
| "invoked_calls rs sr (Install s) = []"
| "invoked_calls rs sr ListTools = []"
| "invoked_calls rs sr (Spawn t k) = invoked_calls rs sr (k sr)"

section \<open>Example inputs\<close>

text \<open>A runtime whose \<open>JSON.parse\<close> always throws; the examples carry no JSON.\<close>

definition no_json :: js_runtime where
  "no_json = \<lparr>JSON_parse = (\<lambda>_. None), String_of = (\<lambda>_. None), Number_text = show_int\<rparr>"

text \<open>
  A response with text around its \<open><tools>\<close> block, an argument that holds \<open><\<close>,
  two elements that are not calls and bare elements.
\<close>

definition mixed_text :: jstring where
  "mixed_text =
     lit ''Let me echo that. <tools><tool>Echo(\"a<b\")</tool><tool>not a call</tool></tools> then <tool>oops(</tool><tool>Echo(\"hello\")</tool>''"

text \<open>
  A runtime that parses one JSON text, an object whose second member cannot be converted
  to a string, and a response of the second dialect that carries it.
\<close>

definition json_text :: jstring where
  "json_text = lit ''{\"a\":\"x\",\"b\":{\"toString\":null}}''"

definition picky_runtime :: js_runtime where
  "picky_runtime =
     \<lparr>JSON_parse = (\<lambda>s. if s = json_text
         then Some (JObject [(lit ''a'', JString (lit ''x'')),
                             (lit ''b'', JObject [(lit ''toString'', JNull)])])
         else None),
      String_of = (\<lambda>v. case v of JString s \<Rightarrow> Some s | _ \<Rightarrow> None),
      Number_text = show_int\<rparr>"

definition kimi_text :: jstring where
  "kimi_text =
     lit ''<|tool_calls_section_begin|><|tool_call_begin|>functions.Echo:0<|tool_call_argument_begin|>'' @
     json_text @ lit ''<|tool_call_end|><|tool_calls_section_end|>''"

definition failed_spawn :: SpawnResult where
  "failed_spawn = \<lparr>success = False, summary = [], exitCode = 1, stdout = [], stderr = []\<rparr>"

definition spawn_text :: jstring where
  "spawn_text = lit ''<tools><tool>Bash(\"gloop --task '' @ [92] @ lit ''\"do x'' @ [92] @
     lit ''\" --model m/n\")</tool><tool>Bash(`echo \"gloop --task '' @ [92, 92] @ lit ''\"hi'' @
     [92, 92] @ lit ''\"\"`)</tool></tools>''"

definition gloop_call :: ToolCall where
  "gloop_call = \<lparr>name = lit ''Bash'', rawArgs = [lit ''gloop --task \"do x\" --model m/n'']\<rparr>"

definition echo_call :: ToolCall where
  "echo_call = \<lparr>name = lit ''Bash'', rawArgs = [lit ''echo \"gloop --task '' @ [92] @ lit ''\"hi'' @ [92] @ lit ''\"\"'']\<rparr>"

definition terminal_text :: jstring where
  "terminal_text =
     lit ''<tools><tool>Echo(\"a\")</tool><tool>CompleteTask(\"done\")</tool><tool>Reboot(\"r\")</tool></tools>''"

definition spawn_done_text :: jstring where
  "spawn_done_text =
     lit ''<tools><tool>Bash(\"gloop --task x\")</tool><tool>CompleteTask(\"done\")</tool></tools>''"

section \<open>Well-formed tool blocks\<close>

text \<open>
  The text of a \<open><tools>\<close> block whose elements are given by their bodies, each after a
  separator text, with a text \<open>tail\<close> before the closing tag.
\<close>

definition tool_element :: "jstring \<Rightarrow> jstring" where
  "tool_element body = lit ''<tool>'' @ body @ lit ''</tool>''"

fun elements :: "(jstring \<times> jstring) list \<Rightarrow> jstring \<Rightarrow> jstring" where
  "elements [] tail = tail"
| "elements ((sep, body) # items) tail = sep @ tool_element body @ elements items tail"

definition tools_block :: "(jstring \<times> jstring) list \<Rightarrow> jstring \<Rightarrow> jstring" where
  "tools_block items tail = lit ''<tools>'' @ elements items tail @ lit ''</tools>''"

definition no_lt :: "jstring \<Rightarrow> bool" where
  "no_lt s \<longleftrightarrow> 60 \<notin> set s"

section \<open>Observations on runs\<close>

text \<open>
  The events a step adds to the trace of the world it starts in.
\<close>

definition events_of :: "('e, 'a) step \<Rightarrow> 'e World \<Rightarrow> Event list" where
  "events_of m w = drop (length (trace w)) (trace (snd (m w)))"

text \<open>A step only ever appends to the trace.\<close>

definition grows :: "('e, 'a) step \<Rightarrow> bool" where
  "grows m \<longleftrightarrow> (\<forall>w. prefix (trace w) (trace (snd (m w))))"

text \<open>The memory effects of a parsed response: the remembers, then the forgets.\<close>

definition memory_events :: "ParsedResponse \<Rightarrow> Event list" where
  "memory_events p = map RememberCall (remembers p) @ map ForgetCall (forgets p)"

fun is_tool_effect :: "Event \<Rightarrow> bool" where
  "is_tool_effect (ToolStart n p) = True"
| "is_tool_effect (ToolDone n ok out) = True"
| "is_tool_effect (ToolExecute n) = True"
| "is_tool_effect ev = False"

text \<open>
  A step that makes one call \<open>e\<close>: it appends \<open>e\<close> to the trace, or it stops before
  the call and appends nothing.
\<close>

definition one_event :: "('e, unit) step \<Rightarrow> Event \<Rightarrow> bool" where
  "one_event m e \<longleftrightarrow>
     (\<forall>w. trace (snd (m w)) = trace w @ [e] \<or> (trace (snd (m w)) = trace w \<and> fst (m w) \<noteq> Inr ()))"

text \<open>
  The \<open>toolStart\<close> and \<open>toolDone\<close> calls of a trace, by tool name, in order.
\<close>

datatype mark = Start jstring | Finish jstring

fun marks :: "Event list \<Rightarrow> mark list" where
  "marks [] = []"
| "marks (ToolStart n p # evs) = Start n # marks evs"
| "marks (ToolDone n ok out # evs) = Finish n # marks evs"
| "marks (ev # evs) = marks evs"

text \<open>
  What one call of a batch emits: its \<open>toolDone\<close>, directly after its \<open>toolStart\<close>
  when the call got as far as starting.
\<close>

definition call_marks :: "ToolCall \<Rightarrow> bool \<Rightarrow> mark list" where
  "call_marks c started = (if started then [Start (name c)] else []) @ [Finish (name c)]"

definition batch_marks :: "ToolCall list \<Rightarrow> bool list \<Rightarrow> mark list" where
  "batch_marks calls started = concat (map2 call_marks calls started)"

text \<open>
  A call resolves when it is handled inline (\<open>AskUser\<close>, \<open>ManageContext\<close>) or its name
  is in the registry whatever the environment does; the user never denies when no
  \<open>confirm\<close> call returns false.
\<close>

definition resolves :: "'e Host \<Rightarrow> ToolCall \<Rightarrow> bool" where
  "resolves host c \<longleftrightarrow>
     name c = lit ''AskUser'' \<or> name c = lit ''ManageContext'' \<or>
     (\<forall>e. registry_get host e (name c) \<noteq> None)"

definition never_denies :: "'e Effects \<Rightarrow> bool" where
  "never_denies fx \<longleftrightarrow> (\<forall>d e. fst (confirm fx d e) \<noteq> Inr False)"

text \<open>
  What happens to a call that arrives at the world \<open>w\<close>. Its name does not resolve: it is
  not handled inline (\<open>AskUser\<close>, \<open>ManageContext\<close>) and the registry has no tool of that
  name. The user denies it: the tool resolves, a confirmation is needed and \<open>confirm\<close>
  answers false. Otherwise it starts.
\<close>

definition unresolved :: "'e Host \<Rightarrow> ToolCall \<Rightarrow> 'e World \<Rightarrow> bool" where
  "unresolved host c w \<longleftrightarrow>
     name c \<noteq> lit ''AskUser'' \<and> name c \<noteq> lit ''ManageContext'' \<and>
     registry_get host (env w) (name c) = None"

definition denied :: "'e Effects \<Rightarrow> 'e Host \<Rightarrow> ToolCall \<Rightarrow> 'e World \<Rightarrow> bool" where
  "denied fx host c w \<longleftrightarrow>
     name c \<noteq> lit ''AskUser'' \<and> name c \<noteq> lit ''ManageContext'' \<and>
     (case registry_get host (env w) (name c) of
        None \<Rightarrow> False
      | Some tool \<Rightarrow>
          (case danger_of host tool c of
             None \<Rightarrow> False
           | Some danger \<Rightarrow> fst (confirm fx danger (env w)) = Inr False))"

definition starts :: "'e Effects \<Rightarrow> 'e Host \<Rightarrow> ToolCall \<Rightarrow> 'e World \<Rightarrow> bool" where
  "starts fx host c w \<longleftrightarrow> \<not> unresolved host c w \<and> \<not> denied fx host c w"

text \<open>
  For each call of a batch, in order, whether it starts in the world in which the loop
  reaches it: the world the calls before it have left.
\<close>

fun started_calls :: "'e Effects \<Rightarrow> 'e Host \<Rightarrow> ToolCall list \<Rightarrow> 'e World \<Rightarrow> bool list" where
  "started_calls fx host [] w = []"
| "started_calls fx host (c # cs) w =
     starts fx host c w # started_calls fx host cs (snd (invoke_call fx host c w))"

text \<open>The \<open>ManageContext\<close> pair of the automatic pruning, when the counter reaches 50.\<close>

definition prune_marks :: "nat \<Rightarrow> nat \<Rightarrow> mark list" where
  "prune_marks counter n =
     (if counter + n \<ge> CONTEXT_PRUNE_INTERVAL
      then [Start (lit ''ManageContext''), Finish (lit ''ManageContext'')] else [])"

section \<open>The test environment (core tests of the repository)\<close>

datatype MessageRole = system | user | assistant

record Message =
  role :: MessageRole
  content :: jstring

text \<open>
  \<open>MockProvider\<close> and \<open>AIConversation\<close>: the scripted responses not yet served, the
  chunks of the running stream still to come, the text streamed so far and the history.
\<close>

record mock_env =
  responses :: "jstring list"
  pending :: "jstring list"
  fullContent :: jstring
  history :: "Message list"
  abort_requested :: bool

text \<open>\<open>content.slice(i, i + 10)\<close> for \<open>i = 0, 10, ...\<close>.\<close>

fun slices :: "nat \<Rightarrow> jstring \<Rightarrow> jstring list" where
  "slices 0 s = []"
| "slices (Suc n) s = (if s = [] then [] else take 10 s # slices n (drop 10 s))"

definition echo_tool :: "mock_env ToolDefinition" where
  "echo_tool =
     \<lparr>tool_name = lit ''Echo'', description = lit ''Returns its input'',
      arguments = [\<lparr>arg_name = lit ''text'', arg_description = lit ''text to echo''\<rparr>],
      execute = (\<lambda>args e. (Inr (case args (lit ''text'') of Some t \<Rightarrow> t | None \<Rightarrow> lit ''empty''), e)),
      askPermission = None\<rparr>"

definition complete_tool :: "mock_env ToolDefinition" where
  "complete_tool =
     \<lparr>tool_name = lit ''CompleteTask'', description = lit ''Signal task completion'',
      arguments = [\<lparr>arg_name = lit ''summary'', arg_description = lit ''summary''\<rparr>],
      execute = (\<lambda>args e. (Inr (case args (lit ''summary'') of Some t \<Rightarrow> t
                                   | None \<Rightarrow> lit ''Task complete.''), e)),
      askPermission = None\<rparr>"

definition mock_host :: "mock_env Host" where
  "mock_host =
     \<lparr>signal_aborted = abort_requested,
      registry_get = (\<lambda>e n. if n = lit ''Echo'' then Some echo_tool
                             else if n = lit ''CompleteTask'' then Some complete_tool else None),
      convo_stream = (\<lambda>input e.
        e\<lparr>history := history e @ [\<lparr>role = user, content = input\<rparr>],
          pending := (case responses e of [] \<Rightarrow> [] | r # _ \<Rightarrow> slices (length r) r) @ [[]],
          responses := tl (responses e),
          fullContent := []\<rparr>),
      stream_next = (\<lambda>e.
        case pending e of
          [] \<Rightarrow> (StreamEnd,
                 if fullContent e \<noteq> []
                 then e\<lparr>history := history e @ [\<lparr>role = assistant, content = fullContent e\<rparr>]\<rparr>
                 else e)
        | c # cs \<Rightarrow> (Chunk c, e\<lparr>pending := cs, fullContent := fullContent e @ c\<rparr>)),
      stream_return = (\<lambda>e. e\<lparr>pending := []\<rparr>),
      push_assistant = (\<lambda>t e. e\<lparr>history := history e @ [\<lparr>role = assistant, content = t\<rparr>]\<rparr>),
      requiresConfirmation = (\<lambda>c. None),
      runtime = no_json\<rparr>"

definition recording_fx :: "mock_env Effects" where
  "recording_fx =
     \<lparr>notify = (\<lambda>ev e. e),
      confirm = (\<lambda>c e. (Inr True, e)),
      ask = (\<lambda>q e. (Inr (lit ''test answer''), e)),
      remember = (\<lambda>c e. (Inr (), e)),
      forget = (\<lambda>c e. (Inr (), e)),
      refreshSystem = (\<lambda>e. (Inr (), e)),
      reboot = (\<lambda>r e. (Some (Error (lit ''unreachable'')), e)),
      manageContext = (\<lambda>i e. (Inr (lit ''pruned''), e)),
      installTool = (\<lambda>s e. (Inr (lit ''installed''), e)),
      listTools = (\<lambda>e. lit ''no tools''),
      spawn = (\<lambda>t e. (Inr \<lparr>success = True, summary = lit ''done'', exitCode = 0,
                             stdout = [], stderr = []\<rparr>, e))\<rparr>"

definition mock_world :: "jstring list \<Rightarrow> mock_env World" where
  "mock_world rs =
     mkWorld \<lparr>responses = rs, pending = [], fullContent = [], history = [], abort_requested = False\<rparr>"


text \<open>Calls and a response used as examples.\<close>

definition memory_text :: jstring where
  "memory_text = lit ''<remember>x</remember><tool>Nope()</tool>''"

definition nope_call :: ToolCall where
  "nope_call = \<lparr>name = lit ''Nope'', rawArgs = []\<rparr>"

definition echo_hello :: ToolCall where
  "echo_hello = \<lparr>name = lit ''Echo'', rawArgs = [lit ''hello'']\<rparr>"

section \<open>The context-prune fork (context manager)\<close>

text \<open>
  \<open>parseInt(s)\<close> without a radix: leading whitespace, an optional sign, an optional
  \<open>0x\<close> prefix, then the longest run of digits; \<open>None\<close> is \<open>NaN\<close>. The model keeps
  the integer that the digits denote. The number JavaScript returns is the double nearest
  to it: the same number below \<open>2^53\<close>, and from there on a number that is still at least
  \<open>2^53\<close> in absolute value, so that it compares in the same way with \<open>0\<close> and with the
  length of an array, and indexes no element of one.
\<close>

definition digit_value :: "jchar \<Rightarrow> nat option" where
  "digit_value c =
     (if 48 \<le> c \<and> c \<le> 57 then Some (c - 48)
      else if 97 \<le> c \<and> c \<le> 102 then Some (c - 87)
      else if 65 \<le> c \<and> c \<le> 70 then Some (c - 55)
      else None)"

definition is_digit :: "nat \<Rightarrow> jchar \<Rightarrow> bool" where
  "is_digit radix c = (case digit_value c of None \<Rightarrow> False | Some d \<Rightarrow> d < radix)"

definition digits_value :: "nat \<Rightarrow> jstring \<Rightarrow> int" where
  "digits_value radix z = foldl (\<lambda>acc c. acc * int radix + int (the (digit_value c))) 0 z"

definition parseInt :: "jstring \<Rightarrow> int option" where
  "parseInt s =
     (let s1 = trimStart s;
          negative = prefix [45] s1;
          s2 = (if prefix [45] s1 \<or> prefix [43] s1 then drop 1 s1 else s1);
          hex = (prefix (lit ''0x'') s2 \<or> prefix (lit ''0X'') s2);
          radix = (if hex then 16 else 10);
          z = takeWhile (is_digit radix) (if hex then drop 2 s2 else s2)
      in if z = [] then None
         else Some ((if negative then - 1 else 1) * digits_value radix z))"

text \<open>\<open>s.split(c)\<close> for a one-character separator.\<close>

fun split_on :: "jchar \<Rightarrow> jstring \<Rightarrow> jstring list" where
  "split_on c [] = [] # []"
| "split_on c (x # xs) =
     (if x = c then [] # split_on c xs
      else case split_on c xs of
             [] \<Rightarrow> [x] # []
           | h # t \<Rightarrow> (x # h) # t)"

text \<open>
  \<open>${n}\<close> for a number that \<open>parseInt\<close> returned: the decimal digits of an integer
  below \<open>2^53\<close>, where the double is the integer itself, and the runtime's text of the
  nearest double from there on (other digits, an exponent, \<open>Infinity\<close>).
\<close>

definition show_number :: "js_runtime \<Rightarrow> int option \<Rightarrow> jstring" where
  "show_number rt n =
     (case n of
        None \<Rightarrow> lit ''NaN''
      | Some i \<Rightarrow> if \<bar>i\<bar> < 2 ^ 53 then show_int i else Number_text rt i)"

definition role_text :: "MessageRole \<Rightarrow> jstring" where
  "role_text r = (case r of system \<Rightarrow> lit ''system'' | user \<Rightarrow> lit ''user''
                   | assistant \<Rightarrow> lit ''assistant'')"

text \<open>
  The environment of the nested run: the shared array \<open>toDelete\<close> and the state of the
  forked conversation with its provider, of an arbitrary type.
\<close>

record 'l fork_env =
  toDelete :: "int list"
  forked :: 'l

text \<open>\<open>args.k ?? ""\<close> and \<open>args.k || d\<close>.\<close>

definition arg_or_empty :: "(jstring \<rightharpoonup> jstring) \<Rightarrow> jstring \<Rightarrow> jstring" where
  "arg_or_empty args k = (case args k of None \<Rightarrow> [] | Some v \<Rightarrow> v)"

definition arg_or :: "(jstring \<rightharpoonup> jstring) \<Rightarrow> jstring \<Rightarrow> jstring \<Rightarrow> jstring" where
  "arg_or args k d = (case args k of None \<Rightarrow> d | Some v \<Rightarrow> if v = [] then d else v)"

text \<open>\<open>history[idx]\<close> for a number \<open>idx\<close>.\<close>

definition message_at :: "Message list \<Rightarrow> int option \<Rightarrow> Message option" where
  "message_at h idx =
     (case idx of
        None \<Rightarrow> None
      | Some i \<Rightarrow> if 0 \<le> i \<and> i < int (length h) then Some (h ! nat i) else None)"

definition ViewMessage :: "js_runtime \<Rightarrow> Message list \<Rightarrow> 'l fork_env ToolDefinition" where
  "ViewMessage rt h =
     \<lparr>tool_name = lit ''ViewMessage'',
      description = lit ''View the full content of a message by index'',
      arguments = [\<lparr>arg_name = lit ''index'', arg_description = lit ''Message index to view''\<rparr>],
      execute = (\<lambda>args e.
        let idx = parseInt (arg_or_empty args (lit ''index''))
        in (Inr (case message_at h idx of
                   None \<Rightarrow> lit ''No message at index '' @ show_number rt idx
                 | Some msg \<Rightarrow>
                     lit ''#'' @ show_number rt idx @ lit '' ['' @ role_text (role msg) @ lit '']'' @
                     [10] @ content msg), e)),
      askPermission = None\<rparr>"

text \<open>The indices that \<open>DeleteMessages\<close> keeps from its argument.\<close>

definition safe_indexes :: "Message list \<Rightarrow> jstring \<Rightarrow> int list" where
  "safe_indexes h indexes =
     filter (\<lambda>i. i > 0 \<and> i < int (length h))
       (List.map_filter (\<lambda>s. parseInt (trim s)) (split_on 44 indexes))"

definition DeleteMessages :: "Message list \<Rightarrow> 'l fork_env ToolDefinition" where
  "DeleteMessages h =
     \<lparr>tool_name = lit ''DeleteMessages'',
      description = lit ''Mark messages for deletion by index (comma-separated)'',
      arguments = [\<lparr>arg_name = lit ''indexes'',
                    arg_description = lit ''Comma-separated message indexes to delete''\<rparr>],
      execute = (\<lambda>args e.
        let safe = safe_indexes h (arg_or_empty args (lit ''indexes''))
        in (Inr (lit ''Marked '' @ decimal (length safe) @ lit '' messages for deletion: ['' @
                 join (lit '', '') (map show_int safe) @ lit '']''),
            e\<lparr>toDelete := toDelete e @ safe\<rparr>)),
      askPermission = None\<rparr>"

definition CompleteTask :: "'l fork_env ToolDefinition" where
  "CompleteTask =
     \<lparr>tool_name = lit ''CompleteTask'',
      description = lit ''Finish context management with a summary'',
      arguments = [\<lparr>arg_name = lit ''summary'',
                    arg_description = lit ''Brief summary of what was pruned''\<rparr>],
      execute = (\<lambda>args e.
        (Inr (arg_or args (lit ''summary'') (lit ''Context management complete'')), e)),
      askPermission = None\<rparr>"

definition forkRegistry ::
  "js_runtime \<Rightarrow> Message list \<Rightarrow> jstring \<Rightarrow> 'l fork_env ToolDefinition option" where
  "forkRegistry rt h n =
     (if n = lit ''ViewMessage'' then Some (ViewMessage rt h)
      else if n = lit ''DeleteMessages'' then Some (DeleteMessages h)
      else if n = lit ''CompleteTask'' then Some CompleteTask
      else None)"

definition silentFx :: "'l fork_env Effects" where
  "silentFx =
     \<lparr>notify = (\<lambda>ev e. e),
      confirm = (\<lambda>c e. (Inr True, e)),
      ask = (\<lambda>q e. (Inr [], e)),
      remember = (\<lambda>c e. (Inr (), e)),
      forget = (\<lambda>c e. (Inr (), e)),
      refreshSystem = (\<lambda>e. (Inr (), e)),
      reboot = (\<lambda>r e. (Some (Error (lit ''Cannot reboot from context fork'')), e)),
      manageContext = (\<lambda>i e. (Inr (lit ''Cannot nest ManageContext''), e)),
      installTool = (\<lambda>s e. (Inr (lit ''Not available in context fork''), e)),
      listTools = (\<lambda>e. lit ''Not available in context fork''),
      spawn = (\<lambda>t e. (Inr \<lparr>success = False, summary = lit ''Not available in context fork'',
                             exitCode = 1, stdout = [], stderr = []\<rparr>, e))\<rparr>"

text \<open>
  The forked conversation, as far as the interpreter uses it: what \<open>stream\<close>, one race
  of \<open>next()\<close>, \<open>return()\<close> and the push of an assistant message do to its state.
\<close>

record 'l Conversation =
  conv_stream :: "jstring \<Rightarrow> 'l \<Rightarrow> 'l"
  conv_next :: "'l \<Rightarrow> stream_item \<times> 'l"
  conv_return :: "'l \<Rightarrow> 'l"
  conv_push :: "jstring \<Rightarrow> 'l \<Rightarrow> 'l"

text \<open>
  The world of the fork: no cancellation signal, the three tools, the forked
  conversation.
\<close>

definition forkHost ::
  "'l Conversation \<Rightarrow> (ToolCall \<Rightarrow> jstring option) \<Rightarrow> js_runtime \<Rightarrow> Message list \<Rightarrow>
   'l fork_env Host" where
  "forkHost conv rc rt h =
     \<lparr>signal_aborted = (\<lambda>e. False),
      registry_get = (\<lambda>e n. forkRegistry rt h n),
      convo_stream = (\<lambda>input e. e\<lparr>forked := conv_stream conv input (forked e)\<rparr>),
      stream_next = (\<lambda>e. case conv_next conv (forked e) of (item, l') \<Rightarrow> (item, e\<lparr>forked := l'\<rparr>)),
      stream_return = (\<lambda>e. e\<lparr>forked := conv_return conv (forked e)\<rparr>),
      push_assistant = (\<lambda>t e. e\<lparr>forked := conv_push conv t (forked e)\<rparr>),
      requiresConfirmation = rc,
      runtime = rt\<rparr>"

text \<open>The line of the message index for message \<open>i\<close>.\<close>

definition summary_line :: "nat \<Rightarrow> Message \<Rightarrow> jstring" where
  "summary_line i msg =
     (let first50 = take 50 (content msg);
          last50 = (if length (content msg) > 100
                    then drop (length (content msg) - 50) (content msg) else [])
      in lit ''#'' @ decimal i @ lit '' ['' @ role_text (role msg) @ lit ''] \"'' @ first50 @
         (if last50 \<noteq> [] then lit ''... ...'' @ last50 else []) @ lit ''\"'')"

definition fork_input :: "Message list \<Rightarrow> jstring \<Rightarrow> jstring" where
  "fork_input h instructions =
     lit ''Instructions: '' @ instructions @ [10, 10] @ lit ''Message index:'' @ [10] @
     join [10] (map (\<lambda>(i, msg). summary_line i msg) (enumerate 0 h))"

text \<open>\<open>history.filter((_, i) => !deleteSet.has(i))\<close>.\<close>

definition prune :: "Message list \<Rightarrow> int list \<Rightarrow> Message list" where
  "prune h del = map snd (filter (\<lambda>(i, msg). int i \<notin> set del) (enumerate 0 h))"

text \<open>The nested run of \<open>manageContextFork\<close>, from the state \<open>l0\<close> of the forked conversation.\<close>

definition fork_run ::
  "nat \<Rightarrow> 'l Conversation \<Rightarrow> (ToolCall \<Rightarrow> jstring option) \<Rightarrow> js_runtime \<Rightarrow> 'l \<Rightarrow>
   Message list \<Rightarrow> jstring \<Rightarrow> (stop + unit) \<times> 'l fork_env World" where
  "fork_run n conv rc rt l0 h instructions =
     run n silentFx (forkHost conv rc rt h) (fork_input h instructions)
       (mkWorld \<lparr>toDelete = [], forked = l0\<rparr>)"

text \<open>
  \<open>manageContextFork\<close>: the text it returns or the reason it does not return, and the
  history of the outer conversation afterwards, which \<open>setHistory\<close> replaces only when the
  nested run returns.
\<close>

definition manageContextFork ::
  "nat \<Rightarrow> 'l Conversation \<Rightarrow> (ToolCall \<Rightarrow> jstring option) \<Rightarrow> js_runtime \<Rightarrow> 'l \<Rightarrow>
   Message list \<Rightarrow> jstring \<Rightarrow> (stop + jstring) \<times> Message list" where
  "manageContextFork n conv rc rt l0 h instructions =
     (case fork_run n conv rc rt l0 h instructions of
        (Inl s, w) \<Rightarrow> (Inl s, h)
      | (Inr u, w) \<Rightarrow>
          (let pruned = prune h (toDelete (env w))
           in (Inr (lit ''Context pruned: removed '' @
                    decimal (length (remdups (toDelete (env w)))) @ lit '' messages, '' @
                    decimal (length pruned) @ lit '' remaining''),
               pruned)))"


text \<open>
  A property of the environment that a step keeps, and what makes the effects and the
  collaborators of the world keep it.
\<close>

definition preserves :: "('e \<Rightarrow> bool) \<Rightarrow> ('e, 'a) step \<Rightarrow> bool" where
  "preserves P m \<longleftrightarrow> (\<forall>w. P (env w) \<longrightarrow> P (env (snd (m w))))"

definition fx_keeps :: "('e \<Rightarrow> bool) \<Rightarrow> 'e Effects \<Rightarrow> bool" where
  "fx_keeps P fx \<longleftrightarrow>
     (\<forall>e. P e \<longrightarrow>
        (\<forall>ev. P (notify fx ev e)) \<and> (\<forall>c. P (snd (confirm fx c e))) \<and>
        (\<forall>q. P (snd (ask fx q e))) \<and> (\<forall>c. P (snd (remember fx c e))) \<and>
        (\<forall>c. P (snd (forget fx c e))) \<and> P (snd (refreshSystem fx e)) \<and>
        (\<forall>r. P (snd (reboot fx r e))) \<and> (\<forall>i. P (snd (manageContext fx i e))) \<and>
        (\<forall>s. P (snd (installTool fx s e))) \<and> (\<forall>t. P (snd (spawn fx t e))))"

definition host_keeps :: "('e \<Rightarrow> bool) \<Rightarrow> 'e Host \<Rightarrow> bool" where
  "host_keeps P host \<longleftrightarrow>
     (\<forall>e. P e \<longrightarrow>
        (\<forall>i. P (convo_stream host i e)) \<and> P (snd (stream_next host e)) \<and>
        P (stream_return host e) \<and> (\<forall>t. P (push_assistant host t e)) \<and>
        (\<forall>e0 n tool args. registry_get host e0 n = Some tool \<longrightarrow>
           P (snd (execute tool args e))))"

text \<open>The marked indices are all indices of the history other than 0.\<close>

definition deletable :: "Message list \<Rightarrow> 'l fork_env \<Rightarrow> bool" where
  "deletable h e \<longleftrightarrow> (\<forall>i\<in>set (toDelete e). 0 < i \<and> i < int (length h))"

text \<open>
  A forked conversation that streams scripted responses, each as one chunk; and a history
  of three messages.
\<close>

definition scripted :: "jstring list Conversation" where
  "scripted =
     \<lparr>conv_stream = (\<lambda>input l. l),
      conv_next = (\<lambda>l. case l of [] \<Rightarrow> (StreamEnd, []) | r # rs \<Rightarrow> (Chunk r, rs)),
      conv_return = (\<lambda>l. l),
      conv_push = (\<lambda>t l. l)\<rparr>"

definition three_messages :: "Message list" where
  "three_messages =
     [\<lparr>role = system, content = lit ''first''\<rparr>,
      \<lparr>role = assistant, content = lit ''old''\<rparr>,
      \<lparr>role = user, content = lit ''new''\<rparr>]"

definition prune_script :: "jstring list" where
  "prune_script =
     [lit ''<tools><tool>DeleteMessages(\"0, 1, 7\")</tool></tools>'',
      lit ''<tools><tool>CompleteTask(\"done\")</tool></tools>'']"

chapter \<open>Properties\<close>

section \<open>Strings\<close>

lemma set_trimEnd: "set (trimEnd s) \<subseteq> set s"
  unfolding trimEnd_def using set_dropWhileD[of _ is_space "rev s"] by auto

lemma set_trim: "set (trim s) \<subseteq> set s"
  unfolding trim_def trimStart_def using set_trimEnd set_dropWhileD[of _ is_space s] by blast

lemma length_trimEnd: "length (trimEnd s) \<le> length s"
  unfolding trimEnd_def by (simp add: order.trans[OF length_dropWhile_le])

lemma trimStart_keep: "s \<noteq> [] \<Longrightarrow> \<not> is_space (hd s) \<Longrightarrow> trimStart s = s"
  by (cases s) (auto simp: trimStart_def)

lemma trimEnd_keep: "s \<noteq> [] \<Longrightarrow> \<not> is_space (last s) \<Longrightarrow> trimEnd s = s"
  by (cases s rule: rev_cases) (auto simp: trimEnd_def)

lemma trim_keep: "s \<noteq> [] \<Longrightarrow> \<not> is_space (hd s) \<Longrightarrow> \<not> is_space (last s) \<Longrightarrow> trim s = s"
  by (simp add: trim_def trimStart_keep trimEnd_keep)

lemma collapse_ws_spaces: "c \<in> set (collapse_ws s) \<Longrightarrow> is_space c \<Longrightarrow> c = 32"
  by (induction s rule: collapse_ws.induct) (auto split: if_splits)

lemma collapse_ws_run:
  "\<not> is_space b \<Longrightarrow>
   collapse_ws (replicate n 32 @ b # r) = (if n = 0 then [] else [32]) @ b # collapse_ws r"
  by (cases n) (auto simp: is_space_def dropWhile_append3)

lemma collapse_ws_id: "\<forall>c\<in>set s. \<not> is_space c \<Longrightarrow> collapse_ws s = s"
  by (induction s) auto

section \<open>Memory entries\<close>

lemma length_truncated_prefix: "length truncated_prefix = 12"
  by (simp add: truncated_prefix_def lit_def)

lemma truncated_prefix_no_newline: "10 \<notin> set truncated_prefix"
  by (simp add: truncated_prefix_def lit_def)

lemma newline_is_space: "is_space 10"
  by (simp add: is_space_def)

lemma compact_spaced_pair:
  "trim (97 # replicate 600 32 @ [98]) = 97 # replicate 600 32 @ [98]"
  "compactMemoryEntry (97 # replicate 600 32 @ [98]) = lit ''a b''"
proof -
  let ?x = "97 # replicate 600 32 @ [98::nat]"
  show t: "trim ?x = ?x" by (rule trim_keep) (simp_all add: is_space_def)
  have c: "collapse_ws ?x = [97, 32, 98]"
    using collapse_ws_run[of 98 600 "[]"] by (simp add: is_space_def)
  have t2: "trim [97, 32, 98] = [97, 32, 98::nat]"
    by (rule trim_keep) (simp_all add: is_space_def)
  show "compactMemoryEntry ?x = lit ''a b''"
    by (simp add: compactMemoryEntry_def Let_def t c t2 MAX_MEMORY_ENTRY_LENGTH_def lit_def
        del: collapse_ws.simps)
qed

text \<open>
  Claim C6, as the code has it. An entry whose trimmed content exceeds the cap of 500
  code units comes back at most 500 code units long and without a newline. It is first
  put on a single line (whitespace runs collapsed, trimmed); when that line fits the cap it
  is returned as it is, with no marker, and only otherwise is it cut: the result is then
  the prefix \<open>[truncated] \<close>, the first 487 code units of the single line without
  their trailing whitespace, and an ellipsis.
\<close>

theorem compactMemoryEntry_over_cap:
  assumes "length (trim x) > MAX_MEMORY_ENTRY_LENGTH"
  shows "length (compactMemoryEntry x) \<le> 500 \<and> 10 \<notin> set (compactMemoryEntry x) \<and>
    (if length (trim (collapse_ws (trim x))) \<le> 500
     then compactMemoryEntry x = trim (collapse_ws (trim x))
     else compactMemoryEntry x =
            truncated_prefix @ trimEnd (take 487 (trim (collapse_ws (trim x)))) @ [ellipsis] \<and>
          prefix truncated_prefix (compactMemoryEntry x) \<and>
          last (compactMemoryEntry x) = ellipsis)"
proof -
  let ?single = "trim (collapse_ws (trim x))"
  have nonempty: "trim x \<noteq> []" using assms by auto
  have no_nl: "10 \<notin> set ?single"
    using collapse_ws_spaces[of 10 "trim x"] set_trim[of "collapse_ws (trim x)"] newline_is_space
    by auto
  show ?thesis
  proof (cases "length ?single \<le> 500")
    case True
    then have "compactMemoryEntry x = ?single"
      using assms nonempty by (simp add: compactMemoryEntry_def Let_def MAX_MEMORY_ENTRY_LENGTH_def)
    then show ?thesis using True no_nl by simp
  next
    case False
    let ?body = "trimEnd (take 487 ?single)"
    have eq: "compactMemoryEntry x = truncated_prefix @ ?body @ [ellipsis]"
      using assms nonempty False
      by (simp add: compactMemoryEntry_def Let_def MAX_MEMORY_ENTRY_LENGTH_def
          length_truncated_prefix)
    have "length ?body \<le> 487"
      using length_trimEnd[of "take 487 ?single"] by simp
    then have len: "length (compactMemoryEntry x) \<le> 500"
      by (simp add: eq length_truncated_prefix)
    have "set ?body \<subseteq> set ?single"
      using set_trimEnd[of "take 487 ?single"] set_take_subset[of 487 ?single] by blast
    then have "10 \<notin> set (compactMemoryEntry x)"
      using no_nl truncated_prefix_no_newline by (auto simp: eq ellipsis_def)
    moreover have "prefix truncated_prefix (compactMemoryEntry x)"
      "last (compactMemoryEntry x) = ellipsis"
      by (simp_all add: eq)
    ultimately show ?thesis using False len eq by simp
  qed
qed

text \<open>
  The theorem at an entry of 600 letters \<open>a\<close>: nothing to collapse, so the entry is cut
  and marked; the result is the prefix, 487 letters \<open>a\<close> and the ellipsis, 500 code
  units in all.
\<close>

theorem compactMemoryEntry_over_cap_witness:
  "length (trim (replicate 600 97)) > MAX_MEMORY_ENTRY_LENGTH \<and>
   length (compactMemoryEntry (replicate 600 97)) \<le> 500 \<and>
   10 \<notin> set (compactMemoryEntry (replicate 600 97)) \<and>
   compactMemoryEntry (replicate 600 97) = lit ''[truncated] '' @ replicate 487 97 @ [8230] \<and>
   prefix truncated_prefix (compactMemoryEntry (replicate 600 97))"
proof -
  let ?x = "replicate 600 (97::nat)"
  have t: "trim ?x = ?x" by (rule trim_keep) (simp_all add: is_space_def)
  have c: "collapse_ws ?x = ?x" by (rule collapse_ws_id) (simp add: is_space_def)
  have h: "length (trim ?x) > MAX_MEMORY_ENTRY_LENGTH"
    by (simp add: t MAX_MEMORY_ENTRY_LENGTH_def)
  have e: "trimEnd (replicate 487 (97::nat)) = replicate 487 97"
    by (rule trimEnd_keep) (simp_all add: is_space_def)
  have f: "\<not> length (trim (collapse_ws (trim ?x))) \<le> 500" by (simp add: t c)
  have r: "length (compactMemoryEntry ?x) \<le> 500 \<and> 10 \<notin> set (compactMemoryEntry ?x) \<and>
      (compactMemoryEntry ?x =
         truncated_prefix @ trimEnd (take 487 (trim (collapse_ws (trim ?x)))) @ [ellipsis] \<and>
       prefix truncated_prefix (compactMemoryEntry ?x) \<and>
       last (compactMemoryEntry ?x) = ellipsis)"
    by (rule compactMemoryEntry_over_cap[OF h, unfolded if_not_P[OF f]])
  then have eq: "compactMemoryEntry ?x =
      truncated_prefix @ trimEnd (take 487 (trim (collapse_ws (trim ?x)))) @ [ellipsis]"
    by blast
  have "compactMemoryEntry ?x = lit ''[truncated] '' @ replicate 487 97 @ [8230]"
    unfolding eq by (simp add: t c e truncated_prefix_def ellipsis_def)
  then show ?thesis using h r by blast
qed

text \<open>
  The claim as the specification words it fails: the letter \<open>a\<close>, 600 spaces and the
  letter \<open>b\<close> exceed the cap, and the result is \<open>a b\<close>, without the prefix.
\<close>

theorem compactMemoryEntry_not_always_truncated:
  "length (trim (97 # replicate 600 32 @ [98])) > MAX_MEMORY_ENTRY_LENGTH \<and>
   \<not> prefix (lit ''[truncated]'') (compactMemoryEntry (97 # replicate 600 32 @ [98]))"
  by (simp add: compact_spaced_pair MAX_MEMORY_ENTRY_LENGTH_def lit_def)

section \<open>The streaming tag filter\<close>

lemmas filter_eval =
  run_filter_def write_chunk_def write_char_def lit_def new_StreamFilter_def emit_def flush_def
  emitted_text_def OPENING_TAGS_def startsWith_def endsWith_def CLOSING_FOR_def
  TOOL_CONTAINERS_def buffering_check_def track_nesting_def detect_tools_def check_closed_def
  suffix_to_prefix

lemmas tools_eval =
  emitNewTools_def match_bodies_def tool_info_def List.map_filter_def trim_def trimStart_def
  trimEnd_def is_space_def is_word_def substring_def scan_blocks.simps

lemma fold_write_chunk_concat: "fold write_chunk chunks f = write_chunk (concat chunks) f"
  by (induction chunks arbitrary: f) (simp_all add: write_chunk_def)

text \<open>
  Claim C9. Two ways of cutting the same text into chunks, each fed to a fresh filter
  by successive \<open>write\<close> calls followed by \<open>flush\<close>, give the same emitted text and the
  same sequence of \<open>onToolParsed\<close> events.
\<close>

theorem run_filter_chunking:
  assumes "concat cs1 = concat cs2"
  shows "emitted_text (run_filter cb cs1) = emitted_text (run_filter cb cs2) \<and>
         parsed (run_filter cb cs1) = parsed (run_filter cb cs2)"
  using assms by (simp add: run_filter_def fold_write_chunk_concat)

theorem run_filter_chunking_witness:
  "concat [lit ''a<to'', lit ''ols><tool>A(1)</to'', lit ''ol></tools>b''] =
     concat [lit ''a<tools><tool>A(1)</tool></tools>b''] \<and>
   emitted_text (run_filter True [lit ''a<to'', lit ''ols><tool>A(1)</to'', lit ''ol></tools>b''])
     = lit ''ab'' \<and>
   parsed (run_filter True [lit ''a<to'', lit ''ols><tool>A(1)</to'', lit ''ol></tools>b''])
     = [\<lparr>info_name = lit ''A'', info_preview = lit ''1''\<rparr>]"
proof -
  let ?one = "[lit ''a<tools><tool>A(1)</tool></tools>b'']"
  have c: "concat [lit ''a<to'', lit ''ols><tool>A(1)</to'', lit ''ol></tools>b''] = concat ?one"
    by (simp add: lit_def)
  have e: "emitted_text (run_filter True ?one) = lit ''ab''"
    by (simp add: filter_eval tools_eval)
  have p: "parsed (run_filter True ?one) = [\<lparr>info_name = lit ''A'', info_preview = lit ''1''\<rparr>]"
    by (simp add: filter_eval tools_eval)
  show ?thesis
    using run_filter_chunking[OF c, of True] c e p by simp
qed

text \<open>
  Claim C3 at the input \<open><<tools><tool>A()</tool></tools>\<close>. The text holds one
  \<open><tools>\<close> region with one well-formed \<open><tool>\<close> element. The first \<open><\<close> puts the filter
  into \<open>buffering\<close>; the second \<open><\<close> makes the buffer \<open><<\<close>, no prefix of a tag, which is
  flushed as text, and the filter goes back to \<open>normal\<close> having consumed the \<open><\<close> that
  opens the tag. The region is not recognised: no \<open>onToolParsed\<close> event is fired and the
  whole markup reaches the sink.
\<close>

theorem filter_misses_tools_after_lt:
  "emitted_text (run_filter True [lit ''<<tools><tool>A()</tool></tools>''])
     = lit ''<<tools><tool>A()</tool></tools>'' \<and>
   parsed (run_filter True [lit ''<<tools><tool>A()</tool></tools>'']) = []"
  by (simp add: filter_eval tools_eval)

section \<open>The form constructor\<close>

lemmas parser_eval =
  parseResponse_def scan_blocks.simps lit_def inner_toolCalls_def inner_remembers_def
  inner_forgets_def match_bodies_def List.map_filter_def parseToolCall_def trim_def trimStart_def
  trimEnd_def is_space_def is_word_def parseArguments.simps strip_kwarg_def is_quote_def
  parseKimiToolCalls_def unescape_def

lemmas task_eval =
  splitShellCommand_def split_step_def parseGloopTaskBashCommand_def isGloopCommand_def
  last_segment_def parseTaskRequestTokens_def token_step_def truthy_def startsWith_def
  asSpawnTask_def first_arg_or_def is_space_def lit_def

lemma parse_terminal_text:
  "parseResponse no_json terminal_text
   = \<lparr>toolCalls = [\<lparr>name = lit ''Echo'', rawArgs = [lit ''a'']\<rparr>,
                   \<lparr>name = lit ''CompleteTask'', rawArgs = [lit ''done'']\<rparr>,
                   \<lparr>name = lit ''Reboot'', rawArgs = [lit ''r'']\<rparr>],
      remembers = [], forgets = [], cleanText = []\<rparr>"
  by (simp add: parser_eval terminal_text_def)

text \<open>
  Claim C2. When the parsed tool calls hold a \<open>Reboot\<close> call (whether or not a
  \<open>CompleteTask\<close> call is there too), \<open>parseToForm\<close> returns the \<open>Reboot\<close> terminal
  with the first argument of the first such call as the reason; with no \<open>Reboot\<close> but a
  \<open>CompleteTask\<close> call it returns the \<open>Done\<close> terminal. In both cases the terminal
  is \<open>Invoke(regularCalls, _ \<rightarrow> terminal)\<close> when there are regular calls, and the
  whole is behind the memory prefix of the response, if any.
\<close>

theorem parseToForm_terminal:
  assumes "p = parseResponse rt text"
  shows "(\<forall>rc. first_named (lit ''Reboot'') (toolCalls p) = Some rc \<longrightarrow>
            parseToForm rt text =
              withMemory p (wrap_terminal (regularCalls p)
                (Reboot (first_arg_or (lit ''Reboot requested'') rc)))) \<and>
         (\<forall>cc. first_named (lit ''Reboot'') (toolCalls p) = None \<and>
               first_named (lit ''CompleteTask'') (toolCalls p) = Some cc \<longrightarrow>
            parseToForm rt text =
              withMemory p (wrap_terminal (regularCalls p)
                (Done (first_arg_or (lit ''Task complete'') cc))))"
  using assms
  by (auto simp: parseToForm_def form_of_parsed_def wrap_terminal_def first_named_def Let_def)

text \<open>
  The theorem at a response with an \<open>Echo\<close> call, a \<open>CompleteTask\<close> call and a
  \<open>Reboot\<close> call, in that order: \<open>Reboot\<close> wins and \<open>Echo\<close> runs first.
\<close>

theorem parseToForm_terminal_witness:
  "parseToForm no_json terminal_text
   = Invoke [\<lparr>name = lit ''Echo'', rawArgs = [lit ''a'']\<rparr>] (\<lambda>_. Reboot (lit ''r''))"
proof -
  let ?p = "parseResponse no_json terminal_text"
  have f: "first_named (lit ''Reboot'') (toolCalls ?p)
             = Some \<lparr>name = lit ''Reboot'', rawArgs = [lit ''r'']\<rparr>"
    by (simp add: parse_terminal_text first_named_def lit_def)
  have r: "regularCalls ?p = [\<lparr>name = lit ''Echo'', rawArgs = [lit ''a'']\<rparr>]"
    by (simp add: parse_terminal_text regularCalls_def lit_def)
  have m: "memoryForms ?p = []"
    by (simp add: parse_terminal_text memoryForms_def)
  show ?thesis
    using parseToForm_terminal[OF refl, of no_json terminal_text] f
    by (simp add: r m wrap_terminal_def withMemory_def first_arg_or_def)
qed

lemma spawn_chain_chainSpawns:
  "spawn_chain rs sr (chainSpawns tasks base) = tasks @ spawn_chain rs sr base"
  by (induction tasks) (simp_all add: chainSpawns_def)

lemma invoked_calls_chainSpawns:
  "invoked_calls rs sr (chainSpawns tasks base) = invoked_calls rs sr base"
  by (induction tasks) (simp_all add: chainSpawns_def)

lemma spawn_chain_memoryForms: "concat (map (spawn_chain rs sr) (memoryForms p)) = []"
  by (simp add: memoryForms_def)

lemma invoked_calls_memoryForms: "concat (map (invoked_calls rs sr) (memoryForms p)) = []"
  by (simp add: memoryForms_def)

lemma spawn_chain_withMemory: "spawn_chain rs sr (withMemory p f) = spawn_chain rs sr f"
  by (simp add: withMemory_def spawn_chain_memoryForms)

lemma invoked_calls_withMemory: "invoked_calls rs sr (withMemory p f) = invoked_calls rs sr f"
  by (simp add: withMemory_def invoked_calls_memoryForms)

lemma form_of_parsed_no_terminal:
  assumes "first_named (lit ''Reboot'') (toolCalls p) = None"
    and "first_named (lit ''CompleteTask'') (toolCalls p) = None"
  shows "spawn_chain rs sr (form_of_parsed p) = spawnTasks (toolCalls p)"
    and "invoked_calls rs sr (form_of_parsed p) = plainCalls (toolCalls p)"
proof -
  have reg: "regularCalls p = toolCalls p"
    using assms by (auto simp: regularCalls_def first_named_def find_None_iff filter_id_conv)
  have e: "spawnTasks (toolCalls p) = [] \<Longrightarrow> plainCalls (toolCalls p) = toolCalls p"
    by (auto simp: spawnTasks_def plainCalls_def filter_empty_conv filter_id_conv)
  have e2: "toolCalls p = [] \<Longrightarrow> spawnTasks (toolCalls p) = [] \<and> plainCalls (toolCalls p) = []"
    by (simp add: spawnTasks_def plainCalls_def)
  show "spawn_chain rs sr (form_of_parsed p) = spawnTasks (toolCalls p)"
    using assms e e2
    by (auto simp: form_of_parsed_def first_named_def reg spawn_chain_withMemory spawn_chain_chainSpawns)
  show "invoked_calls rs sr (form_of_parsed p) = plainCalls (toolCalls p)"
    using assms e e2
    by (auto simp: form_of_parsed_def first_named_def reg invoked_calls_withMemory invoked_calls_chainSpawns)
qed

text \<open>
  Claim C4, as the code has it. In a response without \<open>Reboot\<close> and \<open>CompleteTask\<close>
  calls, a \<open>Bash\<close> call whose first argument splits into shell tokens of which the first
  has the basename \<open>gloop\<close>, and from whose remaining tokens \<open>parseTaskRequestTokens\<close>
  extracts a task, becomes a \<open>Spawn\<close> form with that task and is not invoked as a tool;
  a \<open>Bash\<close> call whose first token has another basename (such as \<open>echo\<close> followed by a
  quoted text that mentions gloop) stays a regular tool invocation.
\<close>

theorem parseToForm_spawn:
  assumes "p = parseResponse rt text"
    and "first_named (lit ''Reboot'') (toolCalls p) = None"
    and "first_named (lit ''CompleteTask'') (toolCalls p) = None"
    and "c \<in> set (toolCalls p)" and "name c = lit ''Bash''"
    and "splitShellCommand (first_arg_or [] c) = Some (t0 # ts)"
  shows "(last_segment t0 = lit ''gloop'' \<and> parseTaskRequestTokens ts = Some req \<longrightarrow>
            task req \<in> set (spawn_chain rs sr (parseToForm rt text)) \<and>
            c \<notin> set (invoked_calls rs sr (parseToForm rt text))) \<and>
         (last_segment t0 \<noteq> lit ''gloop'' \<longrightarrow>
            c \<in> set (invoked_calls rs sr (parseToForm rt text)))"
proof -
  have sc: "spawn_chain rs sr (parseToForm rt text) = spawnTasks (toolCalls p)"
    and ic: "invoked_calls rs sr (parseToForm rt text) = plainCalls (toolCalls p)"
    using form_of_parsed_no_terminal[OF assms(2,3)] assms(1) by (simp_all add: parseToForm_def)
  have a: "last_segment t0 = lit ''gloop'' \<Longrightarrow> parseTaskRequestTokens ts = Some req \<Longrightarrow>
           asSpawnTask c = Some (task req) \<and> task req \<noteq> []"
    using assms(5,6)
    by (auto simp: asSpawnTask_def parseGloopTaskBashCommand_def isGloopCommand_def
        parseTaskRequestTokens_def Let_def truthy_def split: if_splits option.splits)
  have b: "last_segment t0 \<noteq> lit ''gloop'' \<Longrightarrow> asSpawnTask c = None"
    using assms(5,6)
    by (simp add: asSpawnTask_def parseGloopTaskBashCommand_def isGloopCommand_def)
  show ?thesis
    using a b assms(4) unfolding sc ic
    by (auto simp: spawnTasks_def plainCalls_def is_spawn_def truthy_def image_iff
        intro!: bexI[of _ c])
qed


lemma parse_spawn_text:
  "parseResponse no_json spawn_text =
     \<lparr>toolCalls = [gloop_call, echo_call], remembers = [], forgets = [], cleanText = []\<rparr>"
  by (simp add: parser_eval spawn_text_def gloop_call_def echo_call_def)

lemma split_gloop:
  "splitShellCommand (first_arg_or [] gloop_call) =
     Some [lit ''gloop'', lit ''--task'', lit ''do x'', lit ''--model'', lit ''m/n'']"
  by (simp add: task_eval gloop_call_def)

lemma split_echo:
  "splitShellCommand (first_arg_or [] echo_call) = Some [lit ''echo'', lit ''gloop --task \"hi\"'']"
  by (simp add: task_eval echo_call_def)

lemma tokens_gloop:
  "parseTaskRequestTokens [lit ''--task'', lit ''do x'', lit ''--model'', lit ''m/n''] =
     Some \<lparr>task = lit ''do x'', model = Some (lit ''m/n''), provider = None, debug = False\<rparr>"
  by (simp add: task_eval)

theorem parseToForm_spawn_witness:
  "lit ''do x'' \<in> set (spawn_chain [] failed_spawn (parseToForm no_json spawn_text)) \<and>
   gloop_call \<notin> set (invoked_calls [] failed_spawn (parseToForm no_json spawn_text)) \<and>
   echo_call \<in> set (invoked_calls [] failed_spawn (parseToForm no_json spawn_text))"
proof -
  let ?p = "parseResponse no_json spawn_text"
  have nt: "first_named (lit ''Reboot'') (toolCalls ?p) = None"
    "first_named (lit ''CompleteTask'') (toolCalls ?p) = None"
    by (simp_all add: parse_spawn_text first_named_def gloop_call_def echo_call_def lit_def)
  have g: "gloop_call \<in> set (toolCalls ?p)" "name gloop_call = lit ''Bash''"
    by (simp_all add: parse_spawn_text gloop_call_def)
  have e: "echo_call \<in> set (toolCalls ?p)" "name echo_call = lit ''Bash''"
    by (simp_all add: parse_spawn_text echo_call_def)
  have seg: "last_segment (lit ''gloop'') = lit ''gloop''" "last_segment (lit ''echo'') \<noteq> lit ''gloop''"
    by (simp_all add: last_segment_def lit_def)
  show ?thesis
    using parseToForm_spawn[OF refl nt g split_gloop, where rs = "[]" and sr = failed_spawn
        and req = "\<lparr>task = lit ''do x'', model = Some (lit ''m/n''), provider = None, debug = False\<rparr>"]
      parseToForm_spawn[OF refl nt e split_echo, where rs = "[]" and sr = failed_spawn] seg
      tokens_gloop
    by simp
qed

text \<open>
  The claim as the specification words it fails when the response also holds a terminal
  call: the \<open>gloop\<close> command is a task command, and the form is an \<open>Invoke\<close> of the
  \<open>Bash\<close> call followed by \<open>Done\<close>, with no \<open>Spawn\<close>.
\<close>

theorem spawn_not_converted_before_terminal:
  "map_option task (parseGloopTaskBashCommand (lit ''gloop --task x'')) = Some (lit ''x'') \<and>
   parseToForm no_json spawn_done_text =
     Invoke [\<lparr>name = lit ''Bash'', rawArgs = [lit ''gloop --task x'']\<rparr>] (\<lambda>_. Done (lit ''done''))"
proof -
  have p: "parseResponse no_json spawn_done_text =
    \<lparr>toolCalls = [\<lparr>name = lit ''Bash'', rawArgs = [lit ''gloop --task x'']\<rparr>,
                  \<lparr>name = lit ''CompleteTask'', rawArgs = [lit ''done'']\<rparr>],
     remembers = [], forgets = [], cleanText = []\<rparr>"
    by (simp add: parser_eval spawn_done_text_def)
  have t: "map_option task (parseGloopTaskBashCommand (lit ''gloop --task x'')) = Some (lit ''x'')"
    by (simp add: task_eval)
  have f: "parseToForm no_json spawn_done_text =
     Invoke [\<lparr>name = lit ''Bash'', rawArgs = [lit ''gloop --task x'']\<rparr>] (\<lambda>_. Done (lit ''done''))"
    unfolding parseToForm_def p
    by (simp add: form_of_parsed_def regularCalls_def withMemory_def memoryForms_def first_arg_or_def lit_def)
  show ?thesis using t f by simp
qed

section \<open>The response parser\<close>

lemma split_first_any_skip:
  assumes "\<forall>p\<in>set pats. p \<noteq> [] \<and> hd p \<notin> set pre"
  shows "split_first_any pats (pre @ rest) =
         map_option (\<lambda>(b, a). (pre @ b, a)) (split_first_any pats rest)"
  using assms
proof (induction pre)
  case Nil
  then show ?case by (simp add: option.map_ident case_prod_unfold)
next
  case (Cons c pre)
  have "find (\<lambda>p. prefix p (c # pre @ rest)) pats = None"
  proof -
    have "\<not> prefix p (c # pre @ rest)" if "p \<in> set pats" for p
      using Cons.prems that by (cases p) auto
    then show ?thesis by (simp add: find_None_iff)
  qed
  moreover have "split_first_any pats (pre @ rest) =
         map_option (\<lambda>(b, a). (pre @ b, a)) (split_first_any pats rest)"
    using Cons by simp
  ultimately show ?case
    by (simp add: option.map_comp comp_def case_prod_unfold)
qed

lemma split_first_any_none:
  assumes "\<forall>p\<in>set pats. p \<noteq> [] \<and> hd p \<notin> set s"
  shows "split_first_any pats s = None"
proof -
  have "[] \<notin> set pats" using assms by auto
  then show ?thesis using split_first_any_skip[OF assms, of "[]"] by simp
qed

lemma find_tool_open:
  "no_lt sep \<Longrightarrow>
   split_first_any [lit ''<tool>''] (sep @ lit ''<tool>'' @ rest) = Some (sep, rest)"
  by (subst split_first_any_skip) (simp_all add: lit_def no_lt_def)

lemma find_tool_close:
  "no_lt body \<Longrightarrow>
   split_first_any [lit ''</tool>''] (body @ lit ''</tool>'' @ rest) = Some (body, rest)"
  by (subst split_first_any_skip) (simp_all add: lit_def no_lt_def)

lemma scan_no_lt:
  "no_lt s \<Longrightarrow> hd opn = 60 \<Longrightarrow> scan_blocks opn cls s = ([], s)"
  by (subst scan_blocks.simps) (auto simp: split_first_any_none no_lt_def)

lemma scan_elements:
  assumes "\<forall>(sep, body)\<in>set items. no_lt sep \<and> no_lt body" and "no_lt tail"
  shows "match_bodies (lit ''<tool>'') [lit ''</tool>''] (elements items tail) = map snd items"
  using assms
proof (induction items)
  case Nil
  then show ?case by (simp add: match_bodies_def scan_no_lt lit_def)
next
  case (Cons item items)
  obtain sep body where item: "item = (sep, body)" by (cases item)
  have s: "no_lt sep" "no_lt body" using Cons.prems item by auto
  have nz: "lit ''<tool>'' \<noteq> []" by (simp add: lit_def)
  have ih: "fst (scan_blocks (lit ''<tool>'') [lit ''</tool>''] (elements items tail)) = map snd items"
    using Cons by (simp add: match_bodies_def)
  show ?case
    unfolding match_bodies_def item
    by (subst scan_blocks.simps)
      (simp add: tool_element_def find_tool_open[OF s(1)] find_tool_close[OF s(2)] nz ih
        case_prod_unfold)
qed

lemma closing_after_elements:
  assumes "\<forall>(sep, body)\<in>set items. no_lt sep \<and> no_lt body" and "no_lt tail"
  shows "split_first_any [lit ''</tools>'', lit ''<tools>''] (elements items tail @ lit ''</tools>'')
         = Some (elements items tail, [])"
  using assms
proof (induction items)
  case Nil
  have "split_first_any [lit ''</tools>'', lit ''<tools>''] (tail @ lit ''</tools>'')
        = map_option (\<lambda>(b, a). (tail @ b, a))
            (split_first_any [lit ''</tools>'', lit ''<tools>''] (lit ''</tools>''))"
    using Nil by (subst split_first_any_skip) (simp_all add: lit_def no_lt_def)
  then show ?case by (simp add: lit_def)
next
  case (Cons item items)
  obtain sep body where item: "item = (sep, body)" by (cases item)
  have s: "no_lt sep" "no_lt body" using Cons.prems item by auto
  let ?cl = "[lit ''</tools>'', lit ''<tools>'']"
  let ?rest = "elements items tail @ lit ''</tools>''"
  have ih: "split_first_any ?cl ?rest = Some (elements items tail, [])"
    using Cons by simp
  have c: "split_first_any ?cl (lit ''</tool>'' @ ?rest) = Some (lit ''</tool>'' @ elements items tail, [])"
    using ih by (simp add: lit_def)
  have b: "split_first_any ?cl (body @ lit ''</tool>'' @ ?rest)
           = Some (body @ lit ''</tool>'' @ elements items tail, [])"
    using s(2) c by (subst split_first_any_skip) (simp_all add: lit_def no_lt_def)
  have a: "split_first_any ?cl (lit ''<tool>'' @ body @ lit ''</tool>'' @ ?rest)
           = Some (lit ''<tool>'' @ body @ lit ''</tool>'' @ elements items tail, [])"
    using b by (simp add: lit_def)
  have "split_first_any ?cl (sep @ lit ''<tool>'' @ body @ lit ''</tool>'' @ ?rest)
           = Some (sep @ lit ''<tool>'' @ body @ lit ''</tool>'' @ elements items tail, [])"
    using s(1) a by (subst split_first_any_skip) (simp_all add: lit_def no_lt_def)
  then show ?case by (simp add: item tool_element_def)
qed

lemma scan_empty: "scan_blocks opn cls [] = ([], [])"
  by (subst scan_blocks.simps) (simp split: option.splits)

lemma scan_tools_block:
  assumes "\<forall>(sep, body)\<in>set items. no_lt sep \<and> no_lt body" and "no_lt tail"
  shows "scan_blocks (lit ''<tools>'') [lit ''</tools>'', lit ''<tools>''] (tools_block items tail)
         = ([elements items tail], [])"
proof -
  have o: "split_first_any [lit ''<tools>''] (lit ''<tools>'' @ elements items tail @ lit ''</tools>'')
           = Some ([], elements items tail @ lit ''</tools>'')"
    by (simp add: lit_def)
  have nz: "lit ''<tools>'' \<noteq> []" by (simp add: lit_def)
  show ?thesis
    unfolding tools_block_def
    by (subst scan_blocks.simps) (simp add: o nz closing_after_elements[OF assms] scan_empty)
qed

text \<open>
  For a \<open><tools>\<close> block of \<open><tool>\<close> elements whose bodies and separators are free
  of \<open><\<close>, the tool calls returned are those of the bodies that \<open>parseToolCall\<close>
  accepts, in order.
\<close>

lemma tools_block_toolCalls:
  assumes "\<forall>(sep, body)\<in>set items. no_lt sep \<and> no_lt body" and "no_lt tail"
  shows "toolCalls (parseResponse rt (tools_block items tail)) =
           List.map_filter (\<lambda>(sep, body). parseToolCall (trim body)) items"
proof -
  have "toolCalls (parseResponse rt (tools_block items tail)) = inner_toolCalls (elements items tail)"
    by (simp add: parseResponse_def scan_tools_block[OF assms] scan_empty List.map_filter_def)
  also have "\<dots> = List.map_filter (\<lambda>b. parseToolCall (trim b)) (map snd items)"
    by (simp add: inner_toolCalls_def scan_elements[OF assms])
  also have "\<dots> = List.map_filter (\<lambda>(sep, body). parseToolCall (trim body)) items"
    by (simp add: List.map_filter_def filter_map comp_def case_prod_unfold)
  finally show ?thesis .
qed

text \<open>Every exception of the parser is caught: each function returns.\<close>

lemma kimi_rawArgs_returns: "kimi_rawArgs_outcome rt argsJson = Inr (kimi_rawArgs rt argsJson)"
proof (cases "argsJson = []")
  case True
  then show ?thesis by (simp add: kimi_rawArgs_outcome_def kimi_rawArgs_def)
next
  case False
  obtain r pushed where t: "try_block rt argsJson [] = (r, pushed)"
    by (cases "try_block rt argsJson []")
  show ?thesis
    using False t by (cases r) (simp_all add: kimi_rawArgs_outcome_def kimi_rawArgs_def try_catch_def)
qed

lemma kimi_call_returns: "kimi_call_outcome rt grp = Inr (kimi_call rt grp)"
  by (simp add: kimi_call_outcome_def kimi_call_def kimi_rawArgs_returns split: option.splits)

lemma kimi_loop_returns:
  "kimi_loop_outcome rt grps calls = Inr (calls @ List.map_filter (kimi_call rt) grps)"
proof (induction grps arbitrary: calls)
  case Nil
  then show ?case by (simp add: List.map_filter_def)
next
  case (Cons grp grps)
  then show ?case
    by (cases "kimi_call rt grp") (simp_all add: kimi_call_returns List.map_filter_def)
qed

lemma parseKimiToolCalls_returns:
  "parseKimiToolCalls_outcome rt sec calls = Inr (calls @ parseKimiToolCalls rt sec)"
  by (simp add: parseKimiToolCalls_outcome_def parseKimiToolCalls_def kimi_loop_returns)

lemma kimi_sections_returns:
  "kimi_sections_outcome rt sections calls =
     Inr (calls @ concat (map (parseKimiToolCalls rt) sections))"
  by (induction sections arbitrary: calls) (simp_all add: parseKimiToolCalls_returns)

lemma parseResponse_returns: "parseResponse_outcome rt text = Inr (parseResponse rt text)"
  by (simp add: parseResponse_outcome_def parseResponse_def kimi_sections_returns
      split: prod.splits)

lemma parseToolCall_shape: "parseToolCall s = None \<longleftrightarrow> \<not> call_shape s"
proof -
  let ?nm = "takeWhile is_word s" and ?rest = "dropWhile is_word s"
  have "call_shape s \<longleftrightarrow> (?nm \<noteq> [] \<and> length ?rest \<ge> 2 \<and> hd ?rest = 40 \<and> last ?rest = 41)"
  proof
    assume "call_shape s"
    then obtain nm args where s: "s = nm @ [40] @ args @ [41]" "nm \<noteq> []" "list_all is_word nm"
      by (auto simp: call_shape_def)
    have w: "\<not> is_word 40" by (simp add: is_word_def)
    have "?nm = nm" using s w by (simp add: list_all_iff takeWhile_append2)
    moreover have "?rest = [40] @ args @ [41]"
      using s w by (simp add: list_all_iff dropWhile_append2)
    ultimately show "?nm \<noteq> [] \<and> length ?rest \<ge> 2 \<and> hd ?rest = 40 \<and> last ?rest = 41"
      using s by simp
  next
    assume a: "?nm \<noteq> [] \<and> length ?rest \<ge> 2 \<and> hd ?rest = 40 \<and> last ?rest = 41"
    then obtain r where r0: "?rest = 40 # r"
      by (cases ?rest) auto
    then have "r \<noteq> []" using a by auto
    then have r: "?rest = 40 # r" "r \<noteq> []" using r0 by simp_all
    then have "last r = 41" using a by simp
    then have "r = butlast r @ [41]" using r by (metis append_butlast_last_id)
    then have "s = ?nm @ [40] @ butlast r @ [41]"
      using r takeWhile_dropWhile_id[of is_word s] by (metis append_Cons append_Nil)
    moreover have "list_all is_word ?nm" by (simp add: list_all_iff) (meson set_takeWhileD)
    ultimately show "call_shape s" using a by (auto simp: call_shape_def)
  qed
  then show ?thesis by (auto simp: parseToolCall_def Let_def)
qed

lemma map_filter_shaped:
  "List.map_filter (\<lambda>b. parseToolCall (trim b)) bodies = shaped_calls bodies"
proof -
  have "(\<lambda>b. parseToolCall (trim b) \<noteq> None) = (\<lambda>b. call_shape (trim b))"
    using parseToolCall_shape by auto
  then show ?thesis
    by (simp add: List.map_filter_def shaped_calls_def comp_def)
qed

lemma map_filter_concat:
  "List.map_filter f (concat xss) = concat (map (List.map_filter f) xss)"
  by (induction xss) (simp_all add: List.map_filter_def)

lemma shaped_calls_drop:
  "\<not> call_shape (trim b) \<Longrightarrow> shaped_calls (xs @ b # ys) = shaped_calls (xs @ ys)"
  by (simp add: shaped_calls_def)

lemma parseResponse_toolCalls:
  "toolCalls (parseResponse rt text) =
     shaped_calls (block_tool_bodies text) @ kimi_toolCalls rt text @
     shaped_calls (bare_tool_bodies text)"
proof -
  have "concat (map inner_toolCalls blocks) =
      shaped_calls (concat (map (match_bodies (lit ''<tool>'') [lit ''</tool>'']) blocks))"
    for blocks
    unfolding map_filter_shaped[symmetric] map_filter_concat
    by (simp add: inner_toolCalls_def[abs_def] comp_def)
  then show ?thesis
    by (simp add: parseResponse_def block_tool_bodies_def bare_tool_bodies_def kimi_toolCalls_def
        map_filter_shaped match_bodies_def Let_def split: prod.splits)
qed

text \<open>
  Claim C10. For every runtime and every input text, the call \<open>parseResponse(text)\<close>
  returns: whatever \<open>JSON.parse\<close> and \<open>String(value)\<close> throw is caught inside
  \<open>parseKimiToolCalls\<close>, and the loops of the parser (\<open>scan_blocks\<close>, \<open>parseArguments\<close>)
  are defined with their termination proofs. The tool calls returned are, in order, those
  of the \<open><tool>\<close> elements inside \<open><tools>\<close> blocks, those of the second dialect and
  those of the bare \<open><tool>\<close> elements; an element gives a call exactly when its trimmed
  body has the shape \<open>Name(args)\<close>, which is exactly when \<open>parseToolCall\<close> does not
  return null, and an element whose body has not that shape contributes nothing: the calls
  are the same as without it.
\<close>

theorem parseResponse_drops_malformed_tool:
  "parseResponse_outcome rt text = Inr (parseResponse rt text) \<and>
   toolCalls (parseResponse rt text) =
     shaped_calls (block_tool_bodies text) @ kimi_toolCalls rt text @
     shaped_calls (bare_tool_bodies text) \<and>
   (\<forall>s. parseToolCall s = None \<longleftrightarrow> \<not> call_shape s) \<and>
   (\<forall>xs b ys. \<not> call_shape (trim b) \<longrightarrow> shaped_calls (xs @ b # ys) = shaped_calls (xs @ ys))"
  using parseResponse_returns parseResponse_toolCalls parseToolCall_shape shaped_calls_drop
  by blast


lemma parse_mixed_text:
  "parseResponse no_json mixed_text =
     \<lparr>toolCalls = [\<lparr>name = lit ''Echo'', rawArgs = [lit ''a<b'']\<rparr>,
                   \<lparr>name = lit ''Echo'', rawArgs = [lit ''hello'']\<rparr>],
      remembers = [], forgets = [], cleanText = lit ''Let me echo that.  then''\<rparr>"
  by (simp add: parser_eval mixed_text_def)

lemma not_calls:
  "parseToolCall (lit ''not a call'') = None" "parseToolCall (lit ''oops('') = None"
  by (simp_all add: parser_eval)

lemma picky_throws: "try_block picky_runtime json_text [] = (Inl TypeError, [lit ''x''])"
  by (simp add: try_block_def picky_runtime_def)

lemma parse_kimi_text:
  "parseResponse picky_runtime kimi_text =
     \<lparr>toolCalls = [\<lparr>name = lit ''Echo'', rawArgs = [lit ''x'', json_text]\<rparr>],
      remembers = [], forgets = [], cleanText = []\<rparr>"
proof -
  have j: "trim json_text = json_text" "json_text \<noteq> []"
    by (simp_all add: json_text_def trim_def trimStart_def trimEnd_def is_space_def lit_def)
  show ?thesis
    unfolding kimi_text_def
    by (simp add: parser_eval kimi_call_def kimi_name_def kimi_rawArgs_def picky_throws
        startsWith_def json_text_def picky_runtime_def try_block_def)
qed

text \<open>
  The theorem at a response with text around the block, an argument holding \<open><\<close> and
  four elements, in the block and bare, two of which are not calls; and at a response of
  the second dialect whose \<open>try\<close> block throws after the first value has been pushed.
\<close>

theorem parseResponse_drops_malformed_tool_witness:
  "parseResponse_outcome no_json mixed_text =
     Inr \<lparr>toolCalls = [\<lparr>name = lit ''Echo'', rawArgs = [lit ''a<b'']\<rparr>,
                        \<lparr>name = lit ''Echo'', rawArgs = [lit ''hello'']\<rparr>],
          remembers = [], forgets = [], cleanText = lit ''Let me echo that.  then''\<rparr> \<and>
   \<not> call_shape (lit ''not a call'') \<and> \<not> call_shape (lit ''oops('') \<and>
   shaped_calls [lit ''Echo(\"a<b\")'', lit ''not a call''] = shaped_calls [lit ''Echo(\"a<b\")''] \<and>
   fst (try_block picky_runtime json_text []) = Inl TypeError \<and>
   parseResponse_outcome picky_runtime kimi_text =
     Inr \<lparr>toolCalls = [\<lparr>name = lit ''Echo'', rawArgs = [lit ''x'', json_text]\<rparr>],
          remembers = [], forgets = [], cleanText = []\<rparr>"
proof -
  note t = parseResponse_drops_malformed_tool[of no_json mixed_text]
  have a: "parseResponse_outcome no_json mixed_text = Inr (parseResponse no_json mixed_text)"
    using t by blast
  have s: "parseToolCall s = None \<longleftrightarrow> \<not> call_shape s" for s
    using t by blast
  have n: "\<not> call_shape (lit ''not a call'')" "\<not> call_shape (lit ''oops('')"
    using s not_calls by blast+
  have "trim (lit ''not a call'') = lit ''not a call''"
    by (rule trim_keep) (simp_all add: is_space_def lit_def)
  then have d: "shaped_calls ([lit ''Echo(\"a<b\")''] @ lit ''not a call'' # []) =
      shaped_calls ([lit ''Echo(\"a<b\")''] @ [])"
    using t n(1) by metis
  have k: "parseResponse_outcome picky_runtime kimi_text =
      Inr (parseResponse picky_runtime kimi_text)"
    using parseResponse_drops_malformed_tool[of picky_runtime kimi_text] by blast
  show ?thesis
    using a n d k by (simp add: parse_mixed_text parse_kimi_text picky_throws)
qed

section \<open>Steps and traces\<close>

declare evalForm.simps [simp del] invoke_calls.simps [simp del] seq_loop.simps [simp del]

lemma growsI: "(\<And>w. prefix (trace w) (trace (snd (m w)))) \<Longrightarrow> grows m"
  by (simp add: grows_def)

lemma growsD: "grows m \<Longrightarrow> prefix (trace w) (trace (snd (m w)))"
  by (simp add: grows_def)

lemma grows_ret [intro!, simp]: "grows (ret a)"
  by (simp add: grows_def ret_def)

lemma grows_throw [intro!, simp]: "grows (throw ex)"
  by (simp add: grows_def throw_def)

lemma grows_signal [intro!, simp]: "grows (signal fx ev)"
  by (simp add: grows_def signal_def)

lemma grows_await [intro!, simp]: "grows (await ev call)"
  by (simp add: grows_def await_def split: prod.splits)

lemma grows_check_abort [intro!, simp]: "grows (check_abort host)"
  by (simp add: grows_def check_abort_def throw_def ret_def)

lemma grows_andThen [intro!]:
  assumes "grows m" and "\<And>a. grows (f a)"
  shows "grows (andThen m f)"
proof (rule growsI)
  fix w
  show "prefix (trace w) (trace (snd (andThen m f w)))"
  proof (cases "m w")
    case (Pair r w')
    have p1: "prefix (trace w) (trace w')" using growsD[OF assms(1), of w] Pair by simp
    show ?thesis
    proof (cases r)
      case (Inl s)
      then show ?thesis using Pair p1 by (simp add: andThen_def)
    next
      case (Inr a)
      then have "andThen m f w = f a w'" using Pair by (simp add: andThen_def)
      then show ?thesis using p1 growsD[OF assms(2), of w' a] by (auto intro: prefix_order.trans)
    qed
  qed
qed

lemma grows_if [intro!]: "grows m1 \<Longrightarrow> grows m2 \<Longrightarrow> grows (if b then m1 else m2)"
  by simp

lemmas step_defs = andThen_def ret_def throw_def signal_def await_def check_abort_def

lemma grows_run_tool [intro!, simp]: "grows (run_tool fx tool call)"
  by (auto simp: grows_def run_tool_def step_defs split: prod.splits sum.splits)

lemma grows_prefix: "grows m \<Longrightarrow> prefix t (trace w) \<Longrightarrow> prefix t (trace (snd (m w)))"
  using growsD[of m w] by (auto intro: prefix_order.trans)

lemma grows_invoke_call [intro!, simp]: "grows (invoke_call fx host call)"
  unfolding invoke_call_def Let_def
  apply (intro grows_andThen grows_check_abort grows_if grows_signal grows_await grows_ret)
  apply (rule growsI)
  apply (auto simp: step_defs split: option.splits prod.splits sum.splits
        intro!: grows_prefix[OF grows_run_tool])
  done

lemma grows_invoke_calls [intro!, simp]: "grows (invoke_calls fx host calls results)"
  by (induction calls arbitrary: results) (auto simp: invoke_calls.simps)

lemma grows_auto_prune [intro!, simp]: "grows (auto_prune fx n)"
  by (auto simp: grows_def auto_prune_def step_defs split: prod.splits sum.splits)

lemma grows_invoke_batch [intro!, simp]: "grows (invoke_batch fx host calls)"
  unfolding invoke_batch_def by auto

lemma grows_evalInvoke [intro!]:
  "(\<And>f. grows (ev f)) \<Longrightarrow> grows (evalInvoke ev fx host calls k)"
  unfolding evalInvoke_def by auto

lemma trace_signals: "prefix (trace w) (trace (signals fx evs w))"
proof (induction evs arbitrary: w)
  case Nil
  then show ?case by simp
next
  case (Cons ev evs)
  have "prefix (trace w) (trace (snd (signal fx ev w)))" by (simp add: signal_def)
  then show ?case using Cons[of "snd (signal fx ev w)"] by (auto intro: prefix_order.trans)
qed

lemma trace_through_filter:
  "prefix (trace w) (trace (snd (through_filter fx op f w)))"
  by (simp add: through_filter_def Let_def trace_signals)

lemma trace_abandon_stream [simp]: "trace (abandon_stream host t w) = trace w"
  by (simp add: abandon_stream_def Let_def)

lemma grows_think_loop [intro!, simp]: "grows (think_loop n fx host f fullText)"
proof (rule growsI)
  fix w :: "'a World"
  show "prefix (trace w) (trace (snd (think_loop n fx host f fullText w)))"
  proof (induction n arbitrary: f fullText w)
    case 0
    then show ?case by simp
  next
    case (Suc n)
    obtain item e' where nx: "stream_next host (env w) = (item, e')"
      by (cases "stream_next host (env w)")
    show ?case
    proof (cases item)
      case (Chunk content)
      obtain f' w' where tf: "(if content \<noteq> [] then through_filter fx (write_chunk content) f (w\<lparr>env := e'\<rparr>)
                      else (f, w\<lparr>env := e'\<rparr>)) = (f', w')"
        by (cases "(if content \<noteq> [] then through_filter fx (write_chunk content) f (w\<lparr>env := e'\<rparr>)
                      else (f, w\<lparr>env := e'\<rparr>))")
      have p: "prefix (trace w) (trace w')"
        using tf trace_through_filter[of "w\<lparr>env := e'\<rparr>" fx "write_chunk content" f]
        by (auto split: if_splits)
      have "prefix (trace w') (trace (snd (think_loop n fx host f' (fullText @ content) w')))"
        by (rule Suc)
      then have "prefix (trace w) (trace (snd (think_loop n fx host f' (fullText @ content) w')))"
        using p by (auto intro: prefix_order.trans)
      then show ?thesis
        using p tf by (simp add: nx Chunk)
    qed (simp_all add: nx)
  qed
qed

lemma grows_evalThink [intro!]:
  assumes "\<And>f. grows (ev f)"
  shows "grows (evalThink ev n fx host input)"
proof (rule growsI)
  fix w :: "'a World"
  let ?w0 = "w\<lparr>env := convo_stream host input (env w)\<rparr>"
  have g: "grows (andThen (think_loop n fx host (new_StreamFilter False) []) (\<lambda>(brokeEarly, f, fullText) w1.
       case through_filter fx flush f
              (if brokeEarly then abandon_stream host fullText w1 else w1) of
         (_, w2) \<Rightarrow>
           andThen (signal fx StreamDone) (\<lambda>_. ev (parseToForm (runtime host) fullText)) w2))"
  proof (intro grows_andThen grows_think_loop, clarify, rule growsI)
    fix b f t w1
    obtain f2 w2 where tf: "through_filter fx flush f (if b then abandon_stream host t w1 else w1) = (f2, w2)"
      by (cases "through_filter fx flush f (if b then abandon_stream host t w1 else w1)")
    have "prefix (trace w1) (trace w2)"
      using trace_through_filter[of "if b then abandon_stream host t w1 else w1" fx flush f] tf
      by (auto split: if_splits)
    moreover have "grows (andThen (signal fx StreamDone) (\<lambda>_. ev (parseToForm (runtime host) t)))"
      using assms by auto
    ultimately show "prefix (trace w1) (trace (snd (case through_filter fx flush f
              (if b then abandon_stream host t w1 else w1) of
         (_, w2) \<Rightarrow>
           andThen (signal fx StreamDone) (\<lambda>_. ev (parseToForm (runtime host) t)) w2)))"
      by (simp add: tf grows_prefix)
  qed
  show "prefix (trace w) (trace (snd (evalThink ev n fx host input w)))"
    using growsD[OF g, of ?w0] by (simp add: evalThink_def)
qed

lemma grows_seq_loop [intro!]: "(\<And>f. grows (ev f)) \<Longrightarrow> grows (seq_loop ev fs)"
  by (induction fs) (auto simp: seq_loop.simps)

lemma grows_reboot:
  "grows (\<lambda>w. case reboot fx r (env w) of
                 (ex, e') \<Rightarrow>
                   (Inl (case ex of Some x \<Rightarrow> Throw x | None \<Rightarrow> Exit),
                    w\<lparr>env := e', trace := trace w @ [RebootCall r]\<rparr>))"
  by (auto simp: grows_def split: prod.splits)

lemma grows_listTools:
  "grows (\<lambda>w. andThen (signal fx (StreamChunk (listTools fx (env w))))
                (\<lambda>_. signal fx StreamDone) (w\<lparr>trace := trace w @ [ListToolsCall]\<rparr>))"
  by (auto simp: grows_def step_defs)

lemma grows_evalForm [intro!, simp]: "grows (evalForm n fx host form)"
proof (induction n arbitrary: form)
  case 0
  then show ?case by (simp add: grows_def evalForm.simps)
next
  case (Suc n)
  show ?case
    unfolding evalForm.simps
    by (rule grows_andThen, simp, cases form)
      (use Suc in \<open>auto intro: grows_reboot grows_listTools\<close>)
qed


lemma trace_events_of: "grows m \<Longrightarrow> trace (snd (m w)) = trace w @ events_of m w"
  using growsD[of m w] by (auto simp: events_of_def prefix_def)

lemma events_of_eq: "trace (snd (m w)) = trace w @ evs \<Longrightarrow> events_of m w = evs"
  by (simp add: events_of_def)

lemma check_abort_andThen:
  "andThen (check_abort host) f w =
     (if signal_aborted host (env w) then (Inl (Throw AbortError), w) else f () w)"
  by (simp add: step_defs)

lemma invoke_call_cases:
  "invoke_call fx host c w =
     (if signal_aborted host (env w) then (Inl (Throw AbortError), w)
      else if name c = lit ''AskUser'' then
        andThen (signal fx (ToolStart (lit ''AskUser'')
                   (take 60 (first_arg_or (lit ''What would you like to do?'') c)))) (\<lambda>_.
        andThen (await (AskCall (first_arg_or (lit ''What would you like to do?'') c))
                   (ask fx (first_arg_or (lit ''What would you like to do?'') c))) (\<lambda>answer.
        andThen (signal fx (ToolDone (lit ''AskUser'') True (lit ''answered''))) (\<lambda>_.
          ret \<lparr>result_name = lit ''AskUser'', result_output = lit ''User answered: '' @ answer,
               result_success = True\<rparr>))) w
      else if name c = lit ''ManageContext'' then
        andThen (signal fx (ToolStart (lit ''ManageContext'')
                   (take 60 (first_arg_or (lit ''Prune stale messages'') c)))) (\<lambda>_.
        andThen (await (ManageContextCall (first_arg_or (lit ''Prune stale messages'') c))
                   (manageContext fx (first_arg_or (lit ''Prune stale messages'') c))) (\<lambda>result.
        andThen (signal fx (ToolDone (lit ''ManageContext'') True result)) (\<lambda>_.
          ret \<lparr>result_name = lit ''ManageContext'', result_output = result,
               result_success = True\<rparr>))) w
      else case registry_get host (env w) (name c) of
        None \<Rightarrow>
          (Inr (unknown_result c),
           w\<lparr>env := notify fx (ToolDone (name c) False (lit ''Unknown tool: '' @ name c)) (env w),
             trace := trace w @ [ToolDone (name c) False (lit ''Unknown tool: '' @ name c)]\<rparr>)
      | Some tool \<Rightarrow>
          (case danger_of host tool c of
             None \<Rightarrow> run_tool fx tool c w
           | Some danger \<Rightarrow>
               (case confirm fx danger (env w) of
                  (Inl ex, e') \<Rightarrow>
                    (Inl (Throw ex), w\<lparr>env := e', trace := trace w @ [ConfirmCall danger]\<rparr>)
                | (Inr ok, e') \<Rightarrow>
                    if ok then
                      run_tool fx tool c (w\<lparr>env := e', trace := trace w @ [ConfirmCall danger]\<rparr>)
                    else
                      (Inr (denied_result c),
                       w\<lparr>env := notify fx (ToolDone (name c) False (lit ''denied by user'')) e',
                         trace := trace w @ [ConfirmCall danger,
                                    ToolDone (name c) False (lit ''denied by user'')]\<rparr>))))"
  unfolding invoke_call_def check_abort_andThen Let_def
  by (simp add: step_defs split: option.splits prod.splits sum.splits)


lemma applied:
  "invoke_calls fx host [] results w = (Inr results, w)"
  "invoke_calls fx host (call # calls) results w =
     andThen (invoke_call fx host call) (\<lambda>r. invoke_calls fx host calls (results @ [r])) w"
  "invoke_batch fx host calls w =
     andThen (invoke_calls fx host calls []) (\<lambda>results.
     andThen (if list_ex (\<lambda>c. name c = lit ''Reload'') calls
              then await RefreshSystemCall (refreshSystem fx) else ret ()) (\<lambda>_.
     andThen (auto_prune fx (length calls)) (\<lambda>_. ret results))) w"
  "evalInvoke ev fx host calls k w =
     andThen (invoke_batch fx host calls) (\<lambda>results. ev (k results)) w"
  "seq_loop ev [] w = (Inr (), w)"
  "seq_loop ev (f # fs) w = andThen (ev f) (\<lambda>_. seq_loop ev fs) w"
  "evalForm 0 fx host form w = (Inl OutOfFuel, w)"
  by (simp_all add: invoke_batch_def evalInvoke_def ret_def invoke_calls.simps seq_loop.simps
      evalForm.simps)

lemma evalForm_apply:
  "evalForm (Suc n) fx host form w =
     (if signal_aborted host (env w) then (Inl (Throw AbortError), w)
      else (case form of
         Nil \<Rightarrow> ret ()
       | Done s \<Rightarrow> signal fx (CompleteCall s)
       | Emit t k \<Rightarrow>
           andThen (signal fx (StreamChunk t)) (\<lambda>_.
           andThen (signal fx StreamDone) (\<lambda>_. evalForm n fx host k))
       | Remember c k \<Rightarrow>
           andThen (await (RememberCall c) (remember fx c)) (\<lambda>_. evalForm n fx host k)
       | Forget c k \<Rightarrow>
           andThen (await (ForgetCall c) (forget fx c)) (\<lambda>_. evalForm n fx host k)
       | Confirm c k \<Rightarrow>
           andThen (await (ConfirmCall c) (confirm fx c)) (\<lambda>ok. evalForm n fx host (k ok))
       | Ask q k \<Rightarrow>
           andThen (await (AskCall q) (ask fx q)) (\<lambda>answer. evalForm n fx host (k answer))
       | Refresh \<Rightarrow> await RefreshSystemCall (refreshSystem fx)
       | Reboot r \<Rightarrow>
           (\<lambda>w. case reboot fx r (env w) of
                   (ex, e') \<Rightarrow>
                     (Inl (case ex of Some x \<Rightarrow> Throw x | None \<Rightarrow> Exit),
                      w\<lparr>env := e', trace := trace w @ [RebootCall r]\<rparr>))
       | Seq fs \<Rightarrow> seq_loop (evalForm n fx host) fs
       | Think i \<Rightarrow> evalThink (evalForm n fx host) n fx host i
       | Invoke cs k \<Rightarrow> evalInvoke (evalForm n fx host) fx host cs k
       | Install src \<Rightarrow>
           andThen (await (InstallToolCall src) (installTool fx src)) (\<lambda>result.
           andThen (signal fx (StreamChunk result)) (\<lambda>_. signal fx StreamDone))
       | ListTools \<Rightarrow>
           (\<lambda>w. andThen (signal fx (StreamChunk (listTools fx (env w))))
                   (\<lambda>_. signal fx StreamDone) (w\<lparr>trace := trace w @ [ListToolsCall]\<rparr>))
       | Spawn t k \<Rightarrow>
           andThen (await (SpawnCall t) (spawn fx t)) (\<lambda>r. evalForm n fx host (k r))) w)"
  by (simp add: step_defs evalForm.simps)

lemmas evalForm_numeral_apply =
  evalForm_apply[of "pred_numeral k" for k, unfolded numeral_eq_Suc[symmetric]]

lemmas think_loop_numeral_apply =
  think_loop.simps(2)[of "pred_numeral k" for k, unfolded numeral_eq_Suc[symmetric]]

lemma invoke_call_unknown:
  assumes "\<not> signal_aborted host (env w)"
    and "name call \<noteq> lit ''AskUser''" and "name call \<noteq> lit ''ManageContext''"
    and "registry_get host (env w) (name call) = None"
  shows "invoke_call fx host call w =
           (Inr (unknown_result call),
            w\<lparr>env := notify fx (ToolDone (name call) False (lit ''Unknown tool: '' @ name call)) (env w),
              trace := trace w @ [ToolDone (name call) False (lit ''Unknown tool: '' @ name call)]\<rparr>)"
  using assms by (simp add: invoke_call_def step_defs)

section \<open>Memory operations before the tool batch\<close>

lemma one_event_remember: "one_event (evalForm n fx host (Remember r Nil)) (RememberCall r)"
proof (cases n)
  case 0
  then show ?thesis by (simp add: one_event_def evalForm.simps)
next
  case (Suc m)
  then show ?thesis
    by (cases m) (auto simp: one_event_def step_defs evalForm.simps split: prod.splits sum.splits)
qed

lemma one_event_forget: "one_event (evalForm n fx host (Forget r Nil)) (ForgetCall r)"
proof (cases n)
  case 0
  then show ?thesis by (simp add: one_event_def evalForm.simps)
next
  case (Suc m)
  then show ?thesis
    by (cases m) (auto simp: one_event_def step_defs evalForm.simps split: prod.splits sum.splits)
qed

lemma seq_loop_prefix:
  assumes "list_all2 (\<lambda>f e. one_event (ev f) e) fs es" and "\<And>f. grows (ev f)"
  shows "prefix (take (length es) (events_of (seq_loop ev (fs @ [F])) w)) es"
  using assms(1)
proof (induction fs es arbitrary: w rule: list_all2_induct)
  case Nil
  then show ?case by simp
next
  case (Cons f fs e es)
  let ?rest = "seq_loop ev (fs @ [F])"
  obtain res w' where r: "ev f w = (res, w')" by (cases "ev f w")
  have g: "grows ?rest" using assms(2) by auto
  consider (stop) "trace w' = trace w" "res \<noteq> Inr ()"
    | (one) "trace w' = trace w @ [e]"
    using Cons.hyps(1) r by (auto simp: one_event_def dest!: spec[of _ w])
  then show ?case
  proof cases
    case stop
    then have "events_of (seq_loop ev ((f # fs) @ [F])) w = []"
      using r by (cases res) (auto simp: events_of_def andThen_def seq_loop.simps)
    then show ?thesis by simp
  next
    case one
    show ?thesis
    proof (cases res)
      case (Inl s)
      then have "events_of (seq_loop ev ((f # fs) @ [F])) w = [e]"
        using r one by (simp add: events_of_def andThen_def seq_loop.simps)
      then show ?thesis by simp
    next
      case (Inr u)
      then have "seq_loop ev ((f # fs) @ [F]) w = ?rest w'"
        using r by (simp add: andThen_def seq_loop.simps)
      moreover have "trace (snd (?rest w')) = trace w @ e # events_of ?rest w'"
        using trace_events_of[OF g, of w'] one by simp
      ultimately have "events_of (seq_loop ev ((f # fs) @ [F])) w = e # events_of ?rest w'"
        by (intro events_of_eq) simp
      then show ?thesis using Cons.IH[of w'] by simp
    qed
  qed
qed

lemma memoryForms_events:
  "list_all2 (\<lambda>f e. one_event (evalForm n fx host f) e) (memoryForms p) (memory_events p)"
  by (simp add: memoryForms_def memory_events_def list_all2_appendI list_all2_map1 list_all2_map2
      one_event_remember one_event_forget list_all2_same)

lemma form_of_parsed_withMemory: "\<exists>F. form_of_parsed p = withMemory p F"
  by (auto simp: form_of_parsed_def Let_def split: option.splits)

lemma memory_events_tool_free: "ev \<in> set (memory_events p) \<Longrightarrow> \<not> is_tool_effect ev"
  by (auto simp: memory_events_def)

lemma memory_prefix:
  "prefix (take (length (memory_events p)) (events_of (evalForm n fx host (withMemory p F)) w))
     (memory_events p)"
proof (cases "memoryForms p = []")
  case True
  then have "memory_events p = []" by (simp add: memoryForms_def memory_events_def)
  then show ?thesis by simp
next
  case False
  show ?thesis
  proof (cases n)
    case 0
    then show ?thesis by (simp add: events_of_def evalForm.simps)
  next
    case (Suc m)
    show ?thesis
    proof (cases "signal_aborted host (env w)")
      case True
      then show ?thesis using Suc by (simp add: events_of_def step_defs evalForm.simps)
    next
      case na: False
      have "evalForm n fx host (withMemory p F) w =
            seq_loop (evalForm m fx host) (memoryForms p @ [F]) w"
        using False Suc na by (simp add: withMemory_def step_defs evalForm.simps)
      then show ?thesis
        using seq_loop_prefix[OF memoryForms_events, of m fx host p F w]
        by (simp add: events_of_def)
    qed
  qed
qed

text \<open>
  Claim C5. Take the events that the evaluation of \<open>parseToForm(text)\<close> adds to the
  trace, whatever the fuel, the effects and the environment. Their first
  \<open>|remembers| + |forgets|\<close> ones (fewer if the evaluation stops earlier) are the
  \<open>remember\<close> calls of the response in order, then its \<open>forget\<close> calls in order. So
  whenever a \<open>toolStart\<close>, a \<open>toolDone\<close> or a tool execution occurs, every memory
  effect of the response has occurred before it.
\<close>

theorem memory_before_tools:
  fixes host :: "'e Host" and response :: jstring and n :: nat and fx :: "'e Effects"
    and w :: "'e World"
  defines "p \<equiv> parseResponse (runtime host) response"
  defines "new \<equiv> events_of (evalForm n fx host (parseToForm (runtime host) response)) w"
  shows "prefix (take (length (memory_events p)) new) (memory_events p) \<and>
         (\<forall>i<length new. is_tool_effect (new ! i) \<longrightarrow>
            length (memory_events p) \<le> i \<and> take (length (memory_events p)) new = memory_events p)"
proof -
  obtain F where F: "parseToForm (runtime host) response = withMemory p F"
    using form_of_parsed_withMemory[of p] by (auto simp: parseToForm_def p_def)
  have pre: "prefix (take (length (memory_events p)) new) (memory_events p)"
    unfolding new_def F by (rule memory_prefix)
  have "length (memory_events p) \<le> i \<and> take (length (memory_events p)) new = memory_events p"
    if i: "i < length new" and t: "is_tool_effect (new ! i)" for i
  proof -
    have le: "length (memory_events p) \<le> i"
    proof (rule ccontr)
      assume "\<not> length (memory_events p) \<le> i"
      then have lt: "i < length (memory_events p)" by simp
      then have "take (length (memory_events p)) new ! i = new ! i" by simp
      moreover have "i < length (take (length (memory_events p)) new)" using lt i by simp
      ultimately have "new ! i = memory_events p ! i"
        using pre by (metis prefix_def nth_append)
      then show False using t memory_events_tool_free[of "new ! i" p] lt by (metis nth_mem)
    qed
    then have "length (take (length (memory_events p)) new) = length (memory_events p)"
      using i by simp
    then have "take (length (memory_events p)) new = memory_events p"
      using pre by (metis append_eq_conv_conj prefix_def take_all_iff order_refl)
    then show ?thesis using le by simp
  qed
  then show ?thesis using pre by blast
qed

section \<open>Runs in the test environment\<close>

lemma mock_host_sel:
  "signal_aborted mock_host = abort_requested"
  "registry_get mock_host e n =
     (if n = lit ''Echo'' then Some echo_tool
      else if n = lit ''CompleteTask'' then Some complete_tool else None)"
  "convo_stream mock_host input e =
     e\<lparr>history := history e @ [\<lparr>role = user, content = input\<rparr>],
       pending := (case responses e of [] \<Rightarrow> [] | r # _ \<Rightarrow> slices (length r) r) @ [[]],
       responses := tl (responses e),
       fullContent := []\<rparr>"
  "stream_next mock_host e =
     (case pending e of
        [] \<Rightarrow> (StreamEnd,
               if fullContent e \<noteq> []
               then e\<lparr>history := history e @ [\<lparr>role = assistant, content = fullContent e\<rparr>]\<rparr>
               else e)
      | c # cs \<Rightarrow> (Chunk c, e\<lparr>pending := cs, fullContent := fullContent e @ c\<rparr>))"
  "stream_return mock_host e = e\<lparr>pending := []\<rparr>"
  "push_assistant mock_host t e = e\<lparr>history := history e @ [\<lparr>role = assistant, content = t\<rparr>]\<rparr>"
  "requiresConfirmation mock_host c = None"
  "runtime mock_host = no_json"
  by (simp_all add: mock_host_def)

lemma recording_fx_sel:
  "notify recording_fx ev e = e"
  "confirm recording_fx c e = (Inr True, e)"
  "ask recording_fx q e = (Inr (lit ''test answer''), e)"
  "remember recording_fx c e = (Inr (), e)"
  "forget recording_fx c e = (Inr (), e)"
  "refreshSystem recording_fx e = (Inr (), e)"
  "reboot recording_fx r e = (Some (Error (lit ''unreachable'')), e)"
  "manageContext recording_fx i e = (Inr (lit ''pruned''), e)"
  "installTool recording_fx src e = (Inr (lit ''installed''), e)"
  "listTools recording_fx e = lit ''no tools''"
  "spawn recording_fx t e =
     (Inr \<lparr>success = True, summary = lit ''done'', exitCode = 0, stdout = [], stderr = []\<rparr>, e)"
  by (simp_all add: recording_fx_def)

lemmas world_eval =
  applied evalForm_apply evalForm_numeral_apply think_loop_numeral_apply step_defs mock_host_sel
  recording_fx_sel mock_world_def mkWorld_def auto_prune_def CONTEXT_PRUNE_INTERVAL_def
  evalThink_def through_filter_def abandon_stream_def hasCompleteToolBlock_def str_includes_def
  new_StreamFilter_def flush_def emit_def lit_def

lemma parse_memory_text:
  "parseResponse no_json memory_text =
     \<lparr>toolCalls = [\<lparr>name = lit ''Nope'', rawArgs = []\<rparr>], remembers = [lit ''x''],
      forgets = [], cleanText = []\<rparr>"
  by (simp add: parser_eval memory_text_def)

lemma form_memory_text:
  "parseToForm no_json memory_text =
     Seq [Remember (lit ''x'') Nil,
          Invoke [\<lparr>name = lit ''Nope'', rawArgs = []\<rparr>] (\<lambda>results. Think (formatResults results))]"
  unfolding parseToForm_def parse_memory_text
  by (simp add: form_of_parsed_def regularCalls_def withMemory_def memoryForms_def spawnTasks_def
      is_spawn_def asSpawnTask_def truthy_def lit_def)


lemma parse_empty: "parseToForm no_json [] = Nil"
  by (simp add: parseToForm_def parser_eval form_of_parsed_def withMemory_def memoryForms_def scan_empty)

lemma nope_unknown:
  "\<not> abort_requested (env w) \<Longrightarrow>
   invoke_call recording_fx mock_host nope_call w =
     (Inr (unknown_result nope_call),
      w\<lparr>trace := trace w @ [ToolDone (lit ''Nope'') False (lit ''Unknown tool: Nope'')]\<rparr>)"
  by (subst invoke_call_unknown)
     (simp_all add: mock_host_sel recording_fx_sel nope_call_def lit_def)

lemma format_unknown_nope [simp]: "formatResults [unknown_result nope_call] = lit ''<tool_result name=\"Nope\" status=\"error\">'' @ [10] @ lit ''Unknown tool: Nope'' @ [10] @ lit ''</tool_result>''"
  by (simp add: formatResults_def unknown_result_def nope_call_def lit_def)


lemma nope_name: "name nope_call = lit ''Nope''"
  by (simp add: nope_call_def)

lemma run_memory_text:
  "events_of (evalForm 5 recording_fx mock_host (parseToForm (runtime mock_host) memory_text))
     (mock_world []) =
     [RememberCall (lit ''x''),
      ToolDone (lit ''Nope'') False (lit ''Unknown tool: Nope''),
      StreamDone]"
  unfolding mock_host_sel form_memory_text events_of_def nope_call_def[symmetric]
  by (simp add: world_eval parse_empty nope_unknown nope_name)

text \<open>
  The theorem at the response \<open><remember>x</remember><tool>Nope()</tool>\<close> in the test
  environment, run to its end: the \<open>remember\<close> call comes first, the \<open>toolDone\<close> of
  the unknown tool second.
\<close>

theorem memory_before_tools_witness:
  "events_of (evalForm 5 recording_fx mock_host (parseToForm (runtime mock_host) memory_text))
     (mock_world []) ! 1 = ToolDone (lit ''Nope'') False (lit ''Unknown tool: Nope'') \<and>
   memory_events (parseResponse (runtime mock_host) memory_text) = [RememberCall (lit ''x'')] \<and>
   take 1 (events_of (evalForm 5 recording_fx mock_host
             (parseToForm (runtime mock_host) memory_text)) (mock_world []))
     = [RememberCall (lit ''x'')]"
proof -
  let ?new = "events_of (evalForm 5 recording_fx mock_host
                (parseToForm (runtime mock_host) memory_text)) (mock_world [])"
  have m: "memory_events (parseResponse (runtime mock_host) memory_text) = [RememberCall (lit ''x'')]"
    by (simp add: mock_host_sel parse_memory_text memory_events_def)
  have i: "(1::nat) < length ?new" "is_tool_effect (?new ! 1)"
    "?new ! 1 = ToolDone (lit ''Nope'') False (lit ''Unknown tool: Nope'')"
    by (simp_all add: run_memory_text)
  have "take (length (memory_events (parseResponse (runtime mock_host) memory_text))) ?new
          = memory_events (parseResponse (runtime mock_host) memory_text)"
    using memory_before_tools[of mock_host memory_text 5 recording_fx "mock_world []"] i(1,2)
    by blast
  then show ?thesis using m i(3) by simp
qed

section \<open>The Invoke step\<close>

text \<open>
  Claim C7. When the call's name is neither \<open>AskUser\<close> nor \<open>ManageContext\<close> and does
  not resolve in the registry (and the run is not cancelled), the iteration for this call
  returns the result \<open>{success: false, output: "Unknown tool: NAME"}\<close> without throwing,
  its only effect is \<open>toolDone(NAME, false, "Unknown tool: NAME")\<close>, and the loop goes on
  with the next call of the batch, the result pushed.
\<close>

theorem unknown_tool_captured:
  assumes "\<not> signal_aborted host (env w)"
    and "name call \<noteq> lit ''AskUser''" and "name call \<noteq> lit ''ManageContext''"
    and "registry_get host (env w) (name call) = None"
  shows "invoke_call fx host call w =
           (Inr \<lparr>result_name = name call, result_output = lit ''Unknown tool: '' @ name call,
                 result_success = False\<rparr>,
            w\<lparr>env := notify fx (ToolDone (name call) False (lit ''Unknown tool: '' @ name call)) (env w),
              trace := trace w @ [ToolDone (name call) False (lit ''Unknown tool: '' @ name call)]\<rparr>) \<and>
         invoke_calls fx host (call # calls) results w =
           invoke_calls fx host calls
             (results @ [\<lparr>result_name = name call, result_output = lit ''Unknown tool: '' @ name call,
                           result_success = False\<rparr>])
             (w\<lparr>env := notify fx (ToolDone (name call) False (lit ''Unknown tool: '' @ name call)) (env w),
               trace := trace w @ [ToolDone (name call) False (lit ''Unknown tool: '' @ name call)]\<rparr>)"
  using invoke_call_unknown[OF assms, of fx]
  by (simp add: invoke_calls.simps andThen_def unknown_result_def)

text \<open>
  The theorem at the call \<open>Nope()\<close> in the test environment, whose registry holds
  \<open>Echo\<close> and \<open>CompleteTask\<close>: a batch of this one call returns its one result.
\<close>

theorem unknown_tool_captured_witness:
  "invoke_calls recording_fx mock_host [nope_call] [] (mock_world []) =
     (Inr [\<lparr>result_name = lit ''Nope'', result_output = lit ''Unknown tool: Nope'',
             result_success = False\<rparr>],
      (mock_world [])\<lparr>trace := [ToolDone (lit ''Nope'') False (lit ''Unknown tool: Nope'')]\<rparr>)"
proof -
  have h: "\<not> signal_aborted mock_host (env (mock_world []))"
    "name nope_call \<noteq> lit ''AskUser''" "name nope_call \<noteq> lit ''ManageContext''"
    "registry_get mock_host (env (mock_world [])) (name nope_call) = None"
    by (simp_all add: mock_host_sel mock_world_def mkWorld_def nope_call_def lit_def)
  show ?thesis
    using unknown_tool_captured[OF h, of recording_fx "[]" "[]"]
    by (simp add: applied recording_fx_sel mock_world_def mkWorld_def nope_call_def lit_def)
qed

lemma marks_append: "marks (xs @ ys) = marks xs @ marks ys"
  by (induction xs rule: marks.induct) auto

lemma run_tool_marks:
  "run_tool fx tool c w = (Inr r, w') \<Longrightarrow>
   \<exists>evs. trace w' = trace w @ evs \<and> marks evs = call_marks c True"
  by (auto simp: run_tool_def step_defs call_marks_def split: prod.splits sum.splits)

lemma bracket_marks:
  assumes "andThen (signal fx (ToolStart n p)) (\<lambda>_.
           andThen (await ev call) (\<lambda>a.
           andThen (signal fx (ToolDone n True (out a))) (\<lambda>_. ret (res a)))) w = (Inr r, w')"
    and "marks [ev] = []"
  shows "\<exists>evs. trace w' = trace w @ evs \<and> marks evs = [Start n, Finish n]"
proof -
  have "marks [ev, ToolDone n True x] = [Finish n]" for x
    using marks_append[of "[ev]" "[ToolDone n True x]"] assms(2) by simp
  then show ?thesis
    using assms(1) by (auto simp: step_defs split: prod.splits sum.splits)
qed

lemma length_started_calls [simp]: "length (started_calls fx host calls w) = length calls"
  by (induction calls arbitrary: w) auto

lemma resolves_starts:
  assumes "resolves host c" and "never_denies fx"
  shows "starts fx host c w"
proof -
  have "\<not> unresolved host c w"
    using assms(1) by (auto simp: unresolved_def resolves_def)
  moreover have "\<not> denied fx host c w"
    using assms(2) by (auto simp: denied_def never_denies_def split: option.splits)
  ultimately show ?thesis by (simp add: starts_def)
qed

lemma resolves_started_calls:
  "\<forall>c\<in>set calls. resolves host c \<Longrightarrow> never_denies fx \<Longrightarrow>
   started_calls fx host calls w = replicate (length calls) True"
  by (induction calls arbitrary: w) (auto simp: resolves_starts)

lemma invoke_call_starts:
  assumes "invoke_call fx host c w = (Inr r, w')"
  shows "\<exists>evs. trace w' = trace w @ evs \<and> marks evs = call_marks c (starts fx host c w)"
proof -
  have na: "\<not> signal_aborted host (env w)"
    using assms by (auto simp: invoke_call_cases split: if_splits)
  consider (ask) "name c = lit ''AskUser''"
    | (manage) "name c \<noteq> lit ''AskUser''" "name c = lit ''ManageContext''"
    | (unknown) "name c \<noteq> lit ''AskUser''" "name c \<noteq> lit ''ManageContext''"
        "registry_get host (env w) (name c) = None"
    | (tool) tool where "name c \<noteq> lit ''AskUser''" "name c \<noteq> lit ''ManageContext''"
        "registry_get host (env w) (name c) = Some tool"
    by (cases "registry_get host (env w) (name c)"; blast)
  then show ?thesis
  proof cases
    case ask
    then have s: "starts fx host c w" by (simp add: starts_def unresolved_def denied_def)
    have "\<exists>evs. trace w' = trace w @ evs \<and> marks evs = call_marks c True"
      using ask assms na
        bracket_marks[of fx "lit ''AskUser''" _ "AskCall _" _ "\<lambda>_. lit ''answered''" _ w r w']
      by (simp add: invoke_call_cases call_marks_def)
    then show ?thesis using s by simp
  next
    case manage
    then have s: "starts fx host c w" by (simp add: starts_def unresolved_def denied_def)
    have "\<exists>evs. trace w' = trace w @ evs \<and> marks evs = call_marks c True"
      using manage assms na
        bracket_marks[of fx "lit ''ManageContext''" _ "ManageContextCall _" _ "\<lambda>r. r" _ w r w']
      by (simp add: invoke_call_cases call_marks_def)
    then show ?thesis using s by simp
  next
    case unknown
    then have s: "\<not> starts fx host c w" by (simp add: starts_def unresolved_def)
    have "trace w' = trace w @ [ToolDone (name c) False (lit ''Unknown tool: '' @ name c)]"
      using assms na unknown by (auto simp: invoke_call_cases)
    moreover have "marks [ToolDone (name c) False (lit ''Unknown tool: '' @ name c)] = call_marks c False"
      by (simp add: call_marks_def)
    ultimately show ?thesis using s by auto
  next
    case tool
    show ?thesis
    proof (cases "danger_of host tool c")
      case None
      then have s: "starts fx host c w"
        using tool by (simp add: starts_def unresolved_def denied_def)
      have "run_tool fx tool c w = (Inr r, w')"
        using assms tool na None by (simp add: invoke_call_cases)
      then show ?thesis using run_tool_marks s by fastforce
    next
      case (Some d)
      obtain ans e' where c: "confirm fx d (env w) = (ans, e')" by (cases "confirm fx d (env w)")
      let ?w1 = "w\<lparr>env := e', trace := trace w @ [ConfirmCall d]\<rparr>"
      have ok: "\<exists>b. ans = Inr b"
        using assms tool na Some c by (cases ans) (simp_all add: invoke_call_cases)
      then obtain b where b: "ans = Inr b" by blast
      have s: "starts fx host c w = b"
        using tool Some c b by (simp add: starts_def unresolved_def denied_def)
      show ?thesis
      proof (cases b)
        case True
        then have "run_tool fx tool c ?w1 = (Inr r, w')"
          using assms tool na Some c b by (simp add: invoke_call_cases)
        then obtain evs where "trace w' = trace ?w1 @ evs" "marks evs = call_marks c True"
          using run_tool_marks by blast
        then have "trace w' = trace w @ (ConfirmCall d # evs) \<and>
                   marks (ConfirmCall d # evs) = call_marks c True"
          by simp
        then show ?thesis using s True by metis
      next
        case False
        have "trace w' = trace w @ [ConfirmCall d, ToolDone (name c) False (lit ''denied by user'')]"
          using assms tool na Some c b False by (auto simp: invoke_call_cases)
        moreover have "marks [ConfirmCall d, ToolDone (name c) False (lit ''denied by user'')]
                       = call_marks c False"
          by (simp add: call_marks_def)
        ultimately show ?thesis using s False by metis
      qed
    qed
  qed
qed

lemma invoke_calls_starts:
  assumes "invoke_calls fx host calls rs0 w = (Inr rs, w')"
  shows "\<exists>evs. trace w' = trace w @ evs \<and>
           marks evs = batch_marks calls (started_calls fx host calls w)"
  using assms
proof (induction calls arbitrary: rs0 w)
  case Nil
  then show ?case by (simp add: invoke_calls.simps ret_def batch_marks_def)
next
  case (Cons c calls)
  obtain x w1 where c1: "invoke_call fx host c w = (x, w1)" by (cases "invoke_call fx host c w")
  then obtain r where r: "x = Inr r"
    using Cons.prems by (cases x) (auto simp: invoke_calls.simps andThen_def)
  then have rest: "invoke_calls fx host calls (rs0 @ [r]) w1 = (Inr rs, w')"
    using Cons.prems c1 by (simp add: invoke_calls.simps andThen_def)
  obtain evs1 where e1: "trace w1 = trace w @ evs1" "marks evs1 = call_marks c (starts fx host c w)"
    using invoke_call_starts[of fx host c w r w1] c1 r by blast
  obtain evs2 where e2: "trace w' = trace w1 @ evs2"
    "marks evs2 = batch_marks calls (started_calls fx host calls w1)"
    using Cons.IH[OF rest] by blast
  have "trace w' = trace w @ (evs1 @ evs2)" using e1 e2 by simp
  moreover have "marks (evs1 @ evs2) = batch_marks (c # calls) (started_calls fx host (c # calls) w)"
    using e1 e2 c1 by (simp add: marks_append batch_marks_def)
  ultimately show ?case by blast
qed

lemma batch_marks_all:
  "batch_marks calls (replicate (length calls) True) =
     concat (map (\<lambda>c. [Start (name c), Finish (name c)]) calls)"
  by (induction calls) (simp_all add: batch_marks_def call_marks_def)

lemma auto_prune_marks:
  "auto_prune fx n w = (Inr u, w') \<Longrightarrow>
   \<exists>evs. trace w' = trace w @ evs \<and> marks evs = prune_marks (world_toolCalls w) n"
  by (auto simp: auto_prune_def prune_marks_def step_defs split: if_splits prod.splits sum.splits)

lemma refresh_marks:
  "(if b then await RefreshSystemCall call else ret ()) w = (Inr u, w') \<Longrightarrow>
   \<exists>evs. trace w' = trace w @ evs \<and> marks evs = [] \<and> world_toolCalls w' = world_toolCalls w"
  by (auto simp: step_defs split: if_splits prod.splits sum.splits)

lemma invoke_calls_counter:
  "invoke_calls fx host calls rs0 w = (r, w') \<Longrightarrow> world_toolCalls w' = world_toolCalls w"
proof (induction calls arbitrary: rs0 w)
  case Nil
  then show ?case by (auto simp: invoke_calls.simps ret_def)
next
  case (Cons c calls)
  have one: "world_toolCalls (snd (invoke_call fx host c w)) = world_toolCalls w"
    by (auto simp: invoke_call_cases run_tool_def step_defs split: option.splits prod.splits sum.splits)
  show ?case
    using Cons.prems Cons.IH one
    by (auto simp: invoke_calls.simps andThen_def split: prod.splits sum.splits)
qed

text \<open>
  Claim C1, as the code has it. When the Invoke step gets through a batch \<open>B\<close> (no
  cancellation, no effect throws), what it emits before it calls the continuation is, for
  each call of \<open>B\<close> in order, one \<open>toolDone\<close>; the \<open>toolDone\<close> stands alone when, in
  the world in which the loop reaches the call, its name does not resolve or the user
  denies it, and is directly preceded by the \<open>toolStart\<close> of the same call in every other
  case (\<open>started_calls\<close>); after them comes one \<open>ManageContext\<close> pair when the counter
  reaches 50. When every call resolves and the user never denies, the calls give exactly
  \<open>|B|\<close> pairs, in the order of \<open>B\<close>. Calls named \<open>Reboot\<close> or \<open>CompleteTask\<close> are
  treated like any other.
\<close>

theorem invoke_batch_tool_events:
  assumes "invoke_batch fx host calls w = (Inr rs, w')"
  shows "(\<exists>evs. trace w' = trace w @ evs \<and>
            marks evs = batch_marks calls (started_calls fx host calls w) @
                        prune_marks (world_toolCalls w) (length calls)) \<and>
         length (started_calls fx host calls w) = length calls \<and>
         ((\<forall>c\<in>set calls. resolves host c) \<and> never_denies fx \<longrightarrow>
            batch_marks calls (started_calls fx host calls w) =
              concat (map (\<lambda>c. [Start (name c), Finish (name c)]) calls))"
proof -
  obtain x1 w1 where s1: "invoke_calls fx host calls [] w = (x1, w1)"
    by (cases "invoke_calls fx host calls [] w")
  then obtain rs1 where x1: "x1 = Inr rs1"
    using assms by (cases x1) (auto simp: invoke_batch_def andThen_def)
  obtain x2 w2 where s2: "(if list_ex (\<lambda>c. name c = lit ''Reload'') calls
       then await RefreshSystemCall (refreshSystem fx) else ret ()) w1 = (x2, w2)"
    by (cases "(if list_ex (\<lambda>c. name c = lit ''Reload'') calls
       then await RefreshSystemCall (refreshSystem fx) else ret ()) w1")
  then obtain u2 where x2: "x2 = Inr u2"
    using assms s1 x1 by (cases x2) (auto simp: invoke_batch_def andThen_def)
  obtain x3 w3 where s3: "auto_prune fx (length calls) w2 = (x3, w3)"
    by (cases "auto_prune fx (length calls) w2")
  then have x3: "x3 = Inr ()" "w3 = w'"
    using assms s1 x1 s2 x2 by (cases x3; auto simp: invoke_batch_def andThen_def ret_def)+
  obtain evs1 where e1: "trace w1 = trace w @ evs1"
    "marks evs1 = batch_marks calls (started_calls fx host calls w)"
    using invoke_calls_starts[of fx host calls "[]" w rs1 w1] s1 x1 by blast
  obtain evs2 where e2: "trace w2 = trace w1 @ evs2" "marks evs2 = []"
    "world_toolCalls w2 = world_toolCalls w1"
    using refresh_marks[of _ _ w1 u2 w2] s2 x2 by blast
  obtain evs3 where e3: "trace w' = trace w2 @ evs3"
    "marks evs3 = prune_marks (world_toolCalls w2) (length calls)"
    using auto_prune_marks[of fx "length calls" w2 "()" w'] s3 x3 by blast
  have cnt: "world_toolCalls w2 = world_toolCalls w"
    using invoke_calls_counter[OF s1] e2 by simp
  have "trace w' = trace w @ (evs1 @ evs2 @ evs3)" using e1 e2 e3 by simp
  moreover have "marks (evs1 @ evs2 @ evs3) =
      batch_marks calls (started_calls fx host calls w) @
      prune_marks (world_toolCalls w) (length calls)"
    using e1 e2 e3 cnt by (simp add: marks_append)
  ultimately have "\<exists>evs. trace w' = trace w @ evs \<and>
            marks evs = batch_marks calls (started_calls fx host calls w) @
                        prune_marks (world_toolCalls w) (length calls)"
    by blast
  then show ?thesis
    using resolves_started_calls[of calls host fx w] batch_marks_all[of calls] by auto
qed

lemma echo_resolves: "resolves mock_host echo_hello"
  by (simp add: resolves_def mock_host_sel echo_hello_def)

lemma recording_never_denies: "never_denies recording_fx"
  by (simp add: never_denies_def recording_fx_sel)

lemma run_echo_batch:
  "fst (invoke_batch recording_fx mock_host [echo_hello] (mock_world [])) =
     Inr [\<lparr>result_name = lit ''Echo'', result_output = lit ''hello'', result_success = True\<rparr>]"
  by (simp add: world_eval invoke_call_cases run_tool_def danger_of_def echo_hello_def
      echo_tool_def build_args_def)

lemma run_mixed_batch:
  "fst (invoke_batch recording_fx mock_host [nope_call, echo_hello] (mock_world [])) =
     Inr [unknown_result nope_call,
          \<lparr>result_name = lit ''Echo'', result_output = lit ''hello'', result_success = True\<rparr>]"
  by (simp add: world_eval nope_unknown nope_name invoke_call_cases run_tool_def danger_of_def
      echo_hello_def echo_tool_def build_args_def)

lemma started_mixed_batch:
  "started_calls recording_fx mock_host [nope_call, echo_hello] (mock_world []) = [False, True]"
  by (simp add: starts_def unresolved_def denied_def mock_host_sel recording_fx_sel danger_of_def
      nope_call_def echo_hello_def echo_tool_def lit_def mock_world_def mkWorld_def
      invoke_call_cases)

text \<open>
  The theorem in the test environment. At the batch \<open>Nope()\<close>, \<open>Echo("hello")\<close> the
  unknown call gives its \<open>toolDone\<close> alone and the known call a pair after it; at the
  batch of the one call \<open>Echo("hello")\<close>, where every call resolves, one pair.
\<close>

theorem invoke_batch_tool_events_witness:
  "marks (trace (snd (invoke_batch recording_fx mock_host [nope_call, echo_hello] (mock_world [])))) =
     [Finish (lit ''Nope''), Start (lit ''Echo''), Finish (lit ''Echo'')] \<and>
   marks (trace (snd (invoke_batch recording_fx mock_host [echo_hello] (mock_world [])))) =
     [Start (lit ''Echo''), Finish (lit ''Echo'')]"
proof -
  let ?run = "invoke_batch recording_fx mock_host [nope_call, echo_hello] (mock_world [])"
  obtain w' where r: "?run =
      (Inr [unknown_result nope_call,
            \<lparr>result_name = lit ''Echo'', result_output = lit ''hello'', result_success = True\<rparr>], w')"
    using run_mixed_batch by (cases ?run) auto
  have t: "trace (mock_world []) = []" "world_toolCalls (mock_world []) = 0"
    by (simp_all add: mock_world_def mkWorld_def)
  obtain evs where e: "trace w' = trace (mock_world []) @ evs"
    "marks evs =
       batch_marks [nope_call, echo_hello]
         (started_calls recording_fx mock_host [nope_call, echo_hello] (mock_world [])) @
       prune_marks (world_toolCalls (mock_world [])) (length [nope_call, echo_hello])"
    using invoke_batch_tool_events[OF r] by blast
  have "marks (trace w') = [Finish (name nope_call), Start (name echo_hello), Finish (name echo_hello)]"
    using e t started_mixed_batch
    by (simp add: batch_marks_def call_marks_def prune_marks_def CONTEXT_PRUNE_INTERVAL_def)
  then have mixed: "marks (trace (snd ?run)) =
      [Finish (lit ''Nope''), Start (lit ''Echo''), Finish (lit ''Echo'')]"
    using r by (simp add: nope_call_def echo_hello_def)
  let ?one = "invoke_batch recording_fx mock_host [echo_hello] (mock_world [])"
  obtain w1 where r1: "?one =
      (Inr [\<lparr>result_name = lit ''Echo'', result_output = lit ''hello'', result_success = True\<rparr>], w1)"
    using run_echo_batch by (cases ?one) auto
  obtain evs1 where e1: "trace w1 = trace (mock_world []) @ evs1"
    "marks evs1 =
       batch_marks [echo_hello] (started_calls recording_fx mock_host [echo_hello] (mock_world [])) @
       prune_marks (world_toolCalls (mock_world [])) (length [echo_hello])"
    using invoke_batch_tool_events[OF r1] by blast
  have "batch_marks [echo_hello] (started_calls recording_fx mock_host [echo_hello] (mock_world [])) =
      concat (map (\<lambda>c. [Start (name c), Finish (name c)]) [echo_hello])"
    using invoke_batch_tool_events[OF r1] echo_resolves recording_never_denies by simp
  then have "marks (trace w1) = [Start (name echo_hello), Finish (name echo_hello)]"
    using e1 t by (simp add: prune_marks_def CONTEXT_PRUNE_INTERVAL_def)
  then have "marks (trace (snd ?one)) = [Start (lit ''Echo''), Finish (lit ''Echo'')]"
    using r1 by (simp add: echo_hello_def)
  then show ?thesis using mixed by blast
qed

text \<open>
  The claim as the specification words it fails at the batch of the one call \<open>Nope()\<close>,
  which holds no \<open>Reboot\<close> and no \<open>CompleteTask\<close>: the step emits a \<open>toolDone\<close> and no
  \<open>toolStart\<close>, so no pair at all.
\<close>

theorem unknown_tool_emits_no_toolStart:
  "fst (invoke_batch recording_fx mock_host [nope_call] (mock_world [])) =
     Inr [unknown_result nope_call] \<and>
   marks (trace (snd (invoke_batch recording_fx mock_host [nope_call] (mock_world [])))) =
     [Finish (lit ''Nope'')]"
  by (simp add: world_eval nope_unknown nope_name)

section \<open>The context-prune fork\<close>

lemma preservesI: "(\<And>w. P (env w) \<Longrightarrow> P (env (snd (m w)))) \<Longrightarrow> preserves P m"
  by (simp add: preserves_def)

lemma preservesD: "preserves P m \<Longrightarrow> P (env w) \<Longrightarrow> P (env (snd (m w)))"
  by (simp add: preserves_def)

lemma preserves_ret [intro!, simp]: "preserves P (ret a)"
  by (simp add: preserves_def ret_def)

lemma preserves_check_abort [intro!, simp]: "preserves P (check_abort host)"
  by (simp add: preserves_def check_abort_def throw_def ret_def)

lemma preserves_signal [intro!]: "fx_keeps P fx \<Longrightarrow> preserves P (signal fx ev)"
  by (simp add: preserves_def signal_def fx_keeps_def)

lemma preserves_await [intro!]:
  "(\<And>e. P e \<Longrightarrow> P (snd (call e))) \<Longrightarrow> preserves P (await ev call)"
  by (simp add: preserves_def await_def split: prod.splits) (metis snd_conv)

lemma preserves_andThen [intro!]:
  assumes "preserves P m" and "\<And>a. preserves P (f a)"
  shows "preserves P (andThen m f)"
proof (rule preservesI)
  fix w :: "'a World"
  assume p: "P (env w)"
  obtain r w' where mw: "m w = (r, w')" by (cases "m w")
  have p1: "P (env w')" using preservesD[OF assms(1) p] mw by simp
  show "P (env (snd (andThen m f w)))"
  proof (cases r)
    case (Inl s)
    then show ?thesis using mw p1 by (simp add: andThen_def)
  next
    case (Inr a)
    then have "andThen m f w = f a w'" using mw by (simp add: andThen_def)
    then show ?thesis using preservesD[OF assms(2) p1, of a] by simp
  qed
qed

lemma preserves_if [intro!]:
  "preserves P m1 \<Longrightarrow> preserves P m2 \<Longrightarrow> preserves P (if b then m1 else m2)"
  by simp

lemma preserves_run_tool:
  assumes "fx_keeps P fx" and "\<And>args e. P e \<Longrightarrow> P (snd (execute tool args e))"
  shows "preserves P (run_tool fx tool call)"
proof (rule preservesI)
  fix w :: "'a World"
  assume p: "P (env w)"
  have n: "P (notify fx ev e)" if "P e" for ev e
    using assms(1) that by (simp add: fx_keeps_def)
  have x: "P (snd (execute tool (build_args tool call) (notify fx (ToolStart (name call) (preview_of call)) (env w))))"
    using assms(2) n p by simp
  show "P (env (snd (run_tool fx tool call w)))"
    using x n by (auto simp: run_tool_def step_defs split: prod.splits sum.splits)
qed

lemma preserves_invoke_call:
  assumes "fx_keeps P fx" and "host_keeps P host"
  shows "preserves P (invoke_call fx host call)"
proof (rule preservesI)
  fix w :: "'a World"
  assume p: "P (env w)"
  have k: "P (snd (confirm fx c e))" "P (notify fx ev e)" if "P e" for c ev e
    using assms(1) that by (simp_all add: fx_keeps_def)
  have b: "preserves P (andThen (signal fx s) (\<lambda>_.
           andThen (await ev call) (\<lambda>a.
           andThen (signal fx (d a)) (\<lambda>_. ret (res a)))))"
    if "\<And>e. P e \<Longrightarrow> P (snd (call e))" for s ev d and call :: "'a \<Rightarrow> (js_exn + jstring) \<times> 'a" and res :: "jstring \<Rightarrow> ToolResult"
    using assms(1) that by (intro preserves_andThen preserves_signal preserves_await preserves_ret)
  have ask: "P e \<Longrightarrow> P (snd (ask fx q e))" and mc: "P e \<Longrightarrow> P (snd (manageContext fx q e))" for q e
    using assms(1) by (simp_all add: fx_keeps_def)
  have tool: "preserves P (run_tool fx t call)" if "registry_get host e0 (name call) = Some t" for t e0
    using preserves_run_tool[OF assms(1)] assms(2) that by (simp add: host_keeps_def)
  have kc: "P e'" if "confirm fx c (env w) = (r, e')" for c r e'
    using k(1)[OF p, of c] that by simp
  show "P (env (snd (invoke_call fx host call w)))"
    unfolding invoke_call_cases
    using p preservesD[OF b[OF ask], where w = w] preservesD[OF b[OF mc], where w = w] k(2)
    by (auto split: option.splits prod.splits sum.splits
        intro!: preservesD[OF tool] dest: kc)
qed


lemma preserves_invoke_calls:
  assumes "fx_keeps P fx" and "host_keeps P host"
  shows "preserves P (invoke_calls fx host calls results)"
  by (induction calls arbitrary: results)
    (auto simp: invoke_calls.simps intro!: preserves_invoke_call[OF assms])

lemma preserves_auto_prune:
  assumes "fx_keeps P fx"
  shows "preserves P (auto_prune fx n)"
proof (rule preservesI)
  fix w :: "'a World"
  assume p: "P (env w)"
  have mc: "P e \<Longrightarrow> P (snd (manageContext fx q e))" for q e
    using assms by (simp add: fx_keeps_def)
  have b: "preserves P (andThen (signal fx s) (\<lambda>_.
           andThen (await ev (manageContext fx q)) (\<lambda>a. signal fx (d a))))" for s ev q d
    using assms mc by (intro preserves_andThen preserves_signal preserves_await)
  show "P (env (snd (auto_prune fx n w)))"
    using p preservesD[OF b, where w = "w\<lparr>world_toolCalls := 0\<rparr>"]
    by (simp add: auto_prune_def ret_def)
qed

lemma preserves_invoke_batch:
  assumes "fx_keeps P fx" and "host_keeps P host"
  shows "preserves P (invoke_batch fx host calls)"
proof -
  have "P e \<Longrightarrow> P (snd (refreshSystem fx e))" for e
    using assms(1) by (simp add: fx_keeps_def)
  then show ?thesis
    unfolding invoke_batch_def
    by (intro preserves_andThen preserves_if preserves_await preserves_ret
        preserves_invoke_calls[OF assms] preserves_auto_prune[OF assms(1)])
qed

lemma env_signals: "fx_keeps P fx \<Longrightarrow> P (env w) \<Longrightarrow> P (env (signals fx evs w))"
proof (induction evs arbitrary: w)
  case Nil
  then show ?case by simp
next
  case (Cons ev evs)
  have "P (env (snd (signal fx ev w)))"
    using Cons.prems by (simp add: signal_def fx_keeps_def)
  then show ?case using Cons by simp
qed

lemma env_through_filter:
  "fx_keeps P fx \<Longrightarrow> P (env w) \<Longrightarrow> P (env (snd (through_filter fx op f w)))"
  by (simp add: through_filter_def Let_def env_signals)

lemma env_abandon_stream:
  "host_keeps P host \<Longrightarrow> P (env w) \<Longrightarrow> P (env (abandon_stream host t w))"
  by (simp add: abandon_stream_def Let_def host_keeps_def)

lemma preserves_think_loop:
  assumes "fx_keeps P fx" and "host_keeps P host"
  shows "preserves P (think_loop n fx host f fullText)"
proof (rule preservesI)
  fix w :: "'a World"
  show "P (env w) \<Longrightarrow> P (env (snd (think_loop n fx host f fullText w)))"
  proof (induction n arbitrary: f fullText w)
    case 0
    then show ?case by simp
  next
    case (Suc n)
    obtain item e' where nx: "stream_next host (env w) = (item, e')"
      by (cases "stream_next host (env w)")
    have pe: "P e'" using Suc.prems assms(2) nx by (auto simp: host_keeps_def dest!: spec[of _ "env w"])
    let ?w1 = "w\<lparr>env := e'\<rparr>"
    have p1: "P (env ?w1)" using pe by simp
    show ?case
    proof (cases item)
      case (Chunk content)
      obtain f' w' where tf: "(if content \<noteq> [] then through_filter fx (write_chunk content) f ?w1
                      else (f, ?w1)) = (f', w')"
        by (cases "(if content \<noteq> [] then through_filter fx (write_chunk content) f ?w1
                      else (f, ?w1))")
      have p: "P (env w')"
        using tf env_through_filter[OF assms(1) p1, of "write_chunk content" f] p1
        by (auto split: if_splits)
      have "P (env (snd (think_loop n fx host f' (fullText @ content) w')))"
        using p by (rule Suc.IH)
      then show ?thesis using p tf by (simp add: nx Chunk)
    next
      case StreamEnd
      then show ?thesis using pe by (simp add: nx)
    next
      case (StreamThrows ex)
      then show ?thesis
        using pe env_abandon_stream[OF assms(2) p1] by (simp add: nx)
    qed
  qed
qed

lemma preserves_evalThink:
  assumes "fx_keeps P fx" and "host_keeps P host" and "\<And>f. preserves P (ev f)"
  shows "preserves P (evalThink ev n fx host input)"
proof (rule preservesI)
  fix w :: "'a World"
  assume p: "P (env w)"
  let ?w0 = "w\<lparr>env := convo_stream host input (env w)\<rparr>"
  have p0: "P (env ?w0)" using p assms(2) by (simp add: host_keeps_def)
  have g: "preserves P (andThen (think_loop n fx host (new_StreamFilter False) []) (\<lambda>(brokeEarly, f, fullText) w1.
       case through_filter fx flush f
              (if brokeEarly then abandon_stream host fullText w1 else w1) of
         (_, w2) \<Rightarrow>
           andThen (signal fx StreamDone) (\<lambda>_. ev (parseToForm (runtime host) fullText)) w2))"
  proof (intro preserves_andThen preserves_think_loop[OF assms(1,2)], clarify, rule preservesI)
    fix b f t and w1 :: "'a World"
    assume p1: "P (env w1)"
    obtain f2 w2 where tf: "through_filter fx flush f (if b then abandon_stream host t w1 else w1) = (f2, w2)"
      by (cases "through_filter fx flush f (if b then abandon_stream host t w1 else w1)")
    have "P (env (if b then abandon_stream host t w1 else w1))"
      using p1 env_abandon_stream[OF assms(2) p1] by simp
    then have p2: "P (env w2)"
      using env_through_filter[OF assms(1), of "if b then abandon_stream host t w1 else w1" flush f] tf
      by simp
    have "preserves P (andThen (signal fx StreamDone) (\<lambda>_. ev (parseToForm (runtime host) t)))"
      using assms(1,3) by auto
    then show "P (env (snd (case through_filter fx flush f
              (if b then abandon_stream host t w1 else w1) of
         (_, w2) \<Rightarrow>
           andThen (signal fx StreamDone) (\<lambda>_. ev (parseToForm (runtime host) t)) w2)))"
      using p2 by (simp add: tf preservesD)
  qed
  show "P (env (snd (evalThink ev n fx host input w)))"
    using preservesD[OF g p0] by (simp add: evalThink_def)
qed

lemma preserves_seq_loop: "(\<And>f. preserves P (ev f)) \<Longrightarrow> preserves P (seq_loop ev fs)"
  by (induction fs) (auto simp: seq_loop.simps)

lemma preserves_evalForm:
  assumes "fx_keeps P fx" and "host_keeps P host"
  shows "preserves P (evalForm n fx host form)"
proof (induction n arbitrary: form)
  case 0
  then show ?case by (simp add: preserves_def evalForm.simps)
next
  case (Suc n)
  have a: "P e \<Longrightarrow> P (snd (confirm fx c e))" "P e \<Longrightarrow> P (snd (ask fx c e))"
    "P e \<Longrightarrow> P (snd (remember fx c e))" "P e \<Longrightarrow> P (snd (forget fx c e))"
    "P e \<Longrightarrow> P (snd (refreshSystem fx e))" "P e \<Longrightarrow> P (snd (installTool fx c e))"
    "P e \<Longrightarrow> P (snd (spawn fx c e))" "P e \<Longrightarrow> P (snd (reboot fx c e))" for c e
    using assms(1) by (simp_all add: fx_keeps_def)
  have rb: "preserves P (\<lambda>w. case reboot fx r (env w) of
                 (ex, e') \<Rightarrow>
                   (Inl (case ex of Some x \<Rightarrow> Throw x | None \<Rightarrow> Exit),
                    w\<lparr>env := e', trace := trace w @ [RebootCall r]\<rparr>))" for r
    using a(8) by (auto simp: preserves_def split: prod.splits) (metis snd_conv)
  have lt: "preserves P (\<lambda>w. andThen (signal fx (StreamChunk (listTools fx (env w))))
                (\<lambda>_. signal fx StreamDone) (w\<lparr>trace := trace w @ [ListToolsCall]\<rparr>))"
    using assms(1) by (auto simp: preserves_def step_defs fx_keeps_def)
  show ?case
    unfolding evalForm.simps
    by (rule preserves_andThen, simp, cases form)
      (use Suc a rb lt assms in \<open>auto simp: evalInvoke_def
         intro!: preserves_seq_loop preserves_evalThink preserves_invoke_batch\<close>)
qed

lemma silentFx_keeps: "fx_keeps P silentFx"
  by (simp add: fx_keeps_def silentFx_def)

lemma forkRegistry_keeps:
  assumes "forkRegistry rt h n = Some tool" and "deletable h e"
  shows "deletable h (snd (execute tool args e))"
proof -
  consider "tool = ViewMessage rt h" | "tool = DeleteMessages h" | "tool = CompleteTask"
    using assms(1) by (auto simp: forkRegistry_def split: if_splits)
  then show ?thesis
    using assms(2)
    by cases
      (auto simp: ViewMessage_def DeleteMessages_def CompleteTask_def deletable_def Let_def
        safe_indexes_def)
qed

lemma forkHost_keeps: "host_keeps (deletable h) (forkHost conv rc rt h)"
  unfolding host_keeps_def
proof (intro allI impI conjI)
  fix e :: "'a fork_env" and e0 :: "'a fork_env" and n tool args
  assume d: "deletable h e"
  show "deletable h (snd (stream_next (forkHost conv rc rt h) e))"
    using d by (simp add: forkHost_def deletable_def split: prod.splits)
  assume "registry_get (forkHost conv rc rt h) e0 n = Some tool"
  then show "deletable h (snd (execute tool args e))"
    using forkRegistry_keeps[of rt h n tool e args] d by (simp add: forkHost_def)
qed (simp_all add: forkHost_def deletable_def)

lemma prune_keeps_first:
  assumes "h \<noteq> []" and "0 \<notin> set del"
  shows "prune h del \<noteq> [] \<and> hd (prune h del) = hd h"
proof -
  obtain m ms where h: "h = m # ms" using assms(1) by (cases h) auto
  have "enumerate 0 (m # ms) = (0, m) # enumerate 1 ms" by (simp add: enumerate_simps)
  then show ?thesis using assms(2) by (simp add: prune_def h)
qed

text \<open>
  Claim C8. Whatever the nested run of \<open>manageContextFork\<close> does (any responses of the
  forked conversation, any number of steps, any outcome), every index in \<open>toDelete\<close> is
  strictly greater than 0 and strictly less than the size of the history, and the history
  of the outer conversation afterwards is not empty and begins with the original message
  at index 0.
\<close>

theorem manageContextFork_keeps_first:
  assumes "h \<noteq> []"
  shows "(\<forall>i\<in>set (toDelete (env (snd (fork_run n conv rc rt l0 h instructions)))).
            0 < i \<and> i < int (length h)) \<and>
         snd (manageContextFork n conv rc rt l0 h instructions) \<noteq> [] \<and>
         hd (snd (manageContextFork n conv rc rt l0 h instructions)) = hd h"
proof -
  let ?w0 = "mkWorld \<lparr>toDelete = [], forked = l0\<rparr>"
  obtain r w where run: "fork_run n conv rc rt l0 h instructions = (r, w)"
    by (cases "fork_run n conv rc rt l0 h instructions")
  have "deletable h (env ?w0)" by (simp add: deletable_def mkWorld_def)
  then have "deletable h (env (snd (evalForm n silentFx (forkHost conv rc rt h)
                 (parseInput (fork_input h instructions)) ?w0)))"
    using preserves_evalForm[OF silentFx_keeps forkHost_keeps,
        where h1 = h and conv1 = conv and rc1 = rc and rt1 = rt and n = n]
    by (simp add: preserves_def)
  then have d: "deletable h (env w)"
    using run by (simp add: fork_run_def run_def)
  then have z: "0 \<notin> set (toDelete (env w))" by (auto simp: deletable_def)
  have "snd (manageContextFork n conv rc rt l0 h instructions) \<noteq> [] \<and>
        hd (snd (manageContextFork n conv rc rt l0 h instructions)) = hd h"
    using prune_keeps_first[OF assms z] assms run
    by (cases r) (simp_all add: manageContextFork_def Let_def)
  then show ?thesis using d run by (simp add: deletable_def)
qed

lemma trimEnd_Cons: "\<not> is_space x \<Longrightarrow> \<exists>r'. trimEnd (x # r) = x # r'"
proof -
  assume "\<not> is_space x"
  then have "trimEnd (x # r) =
      x # (if \<forall>c\<in>set r. is_space c then [] else rev (dropWhile is_space (rev r)))"
    by (simp add: trimEnd_def dropWhile_append)
  then show ?thesis by blast
qed

lemma parseInput_fork: "\<exists>t. parseInput (fork_input h i) = Think t"
proof -
  obtain r where "fork_input h i = 73 # r" by (simp add: fork_input_def lit_def)
  moreover have "\<not> is_space 73" by (simp add: is_space_def)
  ultimately obtain r' where "trim (fork_input h i) = 73 # r'"
    using trimEnd_Cons[of 73 r] by (auto simp: trim_def trimStart_def)
  then show ?thesis by (simp add: parseInput_def startsWith_def Let_def)
qed

lemma forkHost_sel:
  "signal_aborted (forkHost conv rc rt h) e = False"
  "registry_get (forkHost conv rc rt h) e n = forkRegistry rt h n"
  "convo_stream (forkHost conv rc rt h) input e = e\<lparr>forked := conv_stream conv input (forked e)\<rparr>"
  "stream_next (forkHost conv rc rt h) e =
     (case conv_next conv (forked e) of (item, l') \<Rightarrow> (item, e\<lparr>forked := l'\<rparr>))"
  "stream_return (forkHost conv rc rt h) e = e\<lparr>forked := conv_return conv (forked e)\<rparr>"
  "push_assistant (forkHost conv rc rt h) t e = e\<lparr>forked := conv_push conv t (forked e)\<rparr>"
  "requiresConfirmation (forkHost conv rc rt h) = rc"
  "runtime (forkHost conv rc rt h) = rt"
  by (simp_all add: forkHost_def)

lemma silentFx_sel:
  "notify silentFx ev e = e"
  "confirm silentFx c e = (Inr True, e)"
  "manageContext silentFx i e = (Inr (lit ''Cannot nest ManageContext''), e)"
  "refreshSystem silentFx e = (Inr (), e)"
  by (simp_all add: silentFx_def)

lemma scripted_sel:
  "conv_stream scripted input l = l"
  "conv_next scripted l = (case l of [] \<Rightarrow> (StreamEnd, []) | r # rs \<Rightarrow> (Chunk r, rs))"
  "conv_return scripted l = l"
  "conv_push scripted t l = l"
  by (simp_all add: scripted_def)

lemma parse_delete:
  "parseToForm no_json (lit ''<tools><tool>DeleteMessages(\"0, 1, 7\")</tool></tools>'') =
     Invoke [\<lparr>name = lit ''DeleteMessages'', rawArgs = [lit ''0, 1, 7'']\<rparr>]
       (\<lambda>results. Think (formatResults results))"
  by (simp add: parseToForm_def parser_eval form_of_parsed_def regularCalls_def withMemory_def
      memoryForms_def spawnTasks_def is_spawn_def asSpawnTask_def truthy_def)

lemma parse_complete:
  "parseToForm no_json (lit ''<tools><tool>CompleteTask(\"done\")</tool></tools>'') =
     Done (lit ''done'')"
  by (simp add: parseToForm_def parser_eval form_of_parsed_def regularCalls_def withMemory_def
      memoryForms_def first_arg_or_def)

lemma safe_example: "safe_indexes three_messages (lit ''0, 1, 7'') = [1]"
  by (simp add: safe_indexes_def three_messages_def List.map_filter_def parseInt_def trim_def
      trimStart_def trimEnd_def is_space_def is_digit_def digit_value_def digits_value_def lit_def
      Let_def)

lemma run_prune_script:
  "fst (fork_run 4 scripted (\<lambda>c. None) no_json prune_script three_messages i) = Inr () \<and>
   toDelete (env (snd (fork_run 4 scripted (\<lambda>c. None) no_json prune_script three_messages i))) = [1]"
proof -
  obtain t where t: "parseInput (fork_input three_messages i) = Think t"
    using parseInput_fork by blast
  show ?thesis
    unfolding fork_run_def run_def t prune_script_def
    by (simp add: applied evalForm_apply evalForm_numeral_apply think_loop_numeral_apply step_defs
        forkHost_sel silentFx_sel scripted_sel mkWorld_def auto_prune_def
        CONTEXT_PRUNE_INTERVAL_def evalThink_def through_filter_def abandon_stream_def
        hasCompleteToolBlock_def str_includes_def filter_eval tools_eval
        parse_delete[unfolded lit_def, simplified] parse_complete[unfolded lit_def, simplified]
        invoke_call_cases run_tool_def danger_of_def
        build_args_def forkRegistry_def DeleteMessages_def CompleteTask_def ViewMessage_def
        arg_or_empty_def safe_example[unfolded lit_def, simplified] evalInvoke_def invoke_batch_def
        invoke_calls.simps)
qed

text \<open>
  The theorem at a history of three messages and a fork that answers
  \<open>DeleteMessages("0, 1, 7")\<close> and then \<open>CompleteTask("done")\<close>: only index 1 is marked, and
  the new history is the messages at indices 0 and 2.
\<close>

theorem manageContextFork_keeps_first_witness:
  "three_messages \<noteq> [] \<and>
   toDelete (env (snd (fork_run 4 scripted (\<lambda>c. None) no_json prune_script three_messages
                         (lit ''Prune'')))) = [1] \<and>
   snd (manageContextFork 4 scripted (\<lambda>c. None) no_json prune_script three_messages
          (lit ''Prune'')) =
     [\<lparr>role = system, content = lit ''first''\<rparr>, \<lparr>role = user, content = lit ''new''\<rparr>] \<and>
   hd (snd (manageContextFork 4 scripted (\<lambda>c. None) no_json prune_script three_messages
              (lit ''Prune''))) = hd three_messages"
proof -
  let ?run = "fork_run 4 scripted (\<lambda>c. None) no_json prune_script three_messages (lit ''Prune'')"
  obtain w where r: "?run = (Inr (), w)" and d: "toDelete (env w) = [1]"
    using run_prune_script[of "lit ''Prune''"] by (cases ?run) auto
  have n: "three_messages \<noteq> []" by (simp add: three_messages_def)
  have "snd (manageContextFork 4 scripted (\<lambda>c. None) no_json prune_script three_messages
               (lit ''Prune'')) = prune three_messages [1]"
    using r d by (simp add: manageContextFork_def Let_def)
  moreover have "prune three_messages [1] =
      [\<lparr>role = system, content = lit ''first''\<rparr>, \<lparr>role = user, content = lit ''new''\<rparr>]"
    by (simp add: prune_def three_messages_def enumerate_simps)
  ultimately show ?thesis
    using manageContextFork_keeps_first[OF n, of 4 scripted "\<lambda>c. None" no_json prune_script
        "lit ''Prune''"] r d n
    by simp
qed

end
